theory Spec2Isabelle
  imports
    Main
    "HOL-Library.Char_ord"
    "HOL-Library.List_Lexorder"
    "HOL-Library.Multiset"
    "HOL-Library.FSet"
begin

section \<open>Strings\<close>

text \<open>
  Python \<open>str\<close> values are modelled as \<open>string\<close> (lists of 8-bit characters); the
  development covers ASCII text. Strings are compared as Python compares them:
  lexicographically by character code, a proper prefix being smaller.
\<close>

definition nl :: char where
  "nl = CHR 0x0A"

text \<open>\<^verbatim>\<open>s.startswith(p)\<close>\<close>

definition startswith :: "string \<Rightarrow> string \<Rightarrow> bool" where
  "startswith s p = (take (length p) s = p)"

text \<open>\<^verbatim>\<open>s.split(sep)\<close> for a separator of one character: always at least one piece.\<close>

fun py_split :: "char \<Rightarrow> string \<Rightarrow> string list" where
  "py_split sep [] = [[]]"
| "py_split sep (x # xs) =
     (let r = py_split sep xs
      in if x = sep then [] # r else (x # hd r) # tl r)"

text \<open>\<^verbatim>\<open>sep.join(parts)\<close>\<close>

fun py_join :: "string \<Rightarrow> string list \<Rightarrow> string" where
  "py_join sep [] = []"
| "py_join sep [x] = x"
| "py_join sep (x # y # ys) = x @ sep @ py_join sep (y # ys)"

text \<open>\<^verbatim>\<open>s.upper()\<close> on ASCII text.\<close>

definition upper_char :: "char \<Rightarrow> char" where
  "upper_char c =
     (if CHR ''a'' \<le> c \<and> c \<le> CHR ''z'' then char_of (of_char c - (32::nat)) else c)"

definition upper :: "string \<Rightarrow> string" where
  "upper s = map upper_char s"

text \<open>\<^verbatim>\<open>s.strip() != ""\<close>: some character of \<open>s\<close> is not ASCII whitespace.\<close>

definition is_space :: "char \<Rightarrow> bool" where
  "is_space c = (c \<in> set [CHR 0x20, CHR 0x09, CHR 0x0A, CHR 0x0B, CHR 0x0C, CHR 0x0D,
                           CHR 0x1C, CHR 0x1D, CHR 0x1E, CHR 0x1F])"

definition strip_nonempty :: "string \<Rightarrow> bool" where
  "strip_nonempty s = (filter (\<lambda>c. \<not> is_space c) s \<noteq> [])"

section \<open>Regular expressions\<close>

text \<open>
  The three patterns of the program use literal characters, the classes \<^verbatim>\<open>.\<close> and
  \<^verbatim>\<open>\w\<close>, and two kinds of capture group: the lazy \<^verbatim>\<open>(c*?)\<close> and the greedy
  \<^verbatim>\<open>(c+)\<close>. \<open>re_match\<close> is \<^verbatim>\<open>re.match\<close> on this fragment: a backtracking
  matcher anchored at the start of the string and not at its end, returning the
  captured groups of the first match found (\<open>None\<close> when there is no match).
\<close>

datatype char_class = Dot | Word

fun in_class :: "char_class \<Rightarrow> char \<Rightarrow> bool" where
  "in_class Dot c = (c \<noteq> nl)"
| "in_class Word c =
     ((CHR ''a'' \<le> c \<and> c \<le> CHR ''z'') \<or> (CHR ''A'' \<le> c \<and> c \<le> CHR ''Z'')
      \<or> (CHR ''0'' \<le> c \<and> c \<le> CHR ''9'') \<or> c = CHR ''_'')"

datatype rx = Lit char | Lazy_Star char_class | Greedy_Plus char_class

fun re_match :: "rx list \<Rightarrow> string \<Rightarrow> string list option"
  and lazy_star :: "char_class \<Rightarrow> rx list \<Rightarrow> string \<Rightarrow> string \<Rightarrow> string list option"
  and greedy_star :: "char_class \<Rightarrow> rx list \<Rightarrow> string \<Rightarrow> string \<Rightarrow> string list option"
where
  "re_match [] s = Some []"
| "re_match (Lit c # p) [] = None"
| "re_match (Lit c # p) (x # xs) = (if x = c then re_match p xs else None)"
| "re_match (Lazy_Star k # p) s = lazy_star k p [] s"
| "re_match (Greedy_Plus k # p) [] = None"
| "re_match (Greedy_Plus k # p) (x # xs) =
     (if in_class k x then greedy_star k p [x] xs else None)"
| "lazy_star k p acc [] = map_option (Cons acc) (re_match p [])"
| "lazy_star k p acc (x # xs) =
     (case re_match p (x # xs) of
        Some gs \<Rightarrow> Some (acc # gs)
      | None \<Rightarrow> if in_class k x then lazy_star k p (acc @ [x]) xs else None)"
| "greedy_star k p acc [] = map_option (Cons acc) (re_match p [])"
| "greedy_star k p acc (x # xs) =
     (case (if in_class k x then greedy_star k p (acc @ [x]) xs else None) of
        Some gs \<Rightarrow> Some gs
      | None \<Rightarrow> map_option (Cons acc) (re_match p (x # xs)))"

definition lits :: "string \<Rightarrow> rx list" where
  "lits s = map Lit s"

section \<open>PhoneNumber\<close>

text \<open>
  The class attribute \<^verbatim>\<open>__types\<close> collects the type tokens seen; nothing reads it, and
  it is left out of the model, as are the diagnostics printed on the way.
\<close>

datatype error = ValueError string

record phone_number =
  number :: string
  phone_type :: string

definition default_type :: string where
  "default_type = ''CELL''"

definition phone_line :: string where
  "phone_line = ''TEL;''"

definition type_line :: string where
  "type_line = ''TYPE=''"

text \<open>\<^verbatim>\<open>"TEL;" + "TYPE=" + r"(\w+):(.+)"\<close>\<close>

definition phone_pattern :: "rx list" where
  "phone_pattern = lits (phone_line @ type_line) @ [Greedy_Plus Word, Lit CHR '':'', Greedy_Plus Dot]"

text \<open>\<^verbatim>\<open>__str__\<close>\<close>

definition phone_str :: "phone_number \<Rightarrow> string" where
  "phone_str p = phone_line @ type_line @ phone_type p @ '':'' @ number p"

text \<open>\<^verbatim>\<open>__eq__\<close>, on two phone numbers.\<close>

definition phone_eq :: "phone_number \<Rightarrow> phone_number \<Rightarrow> bool" where
  "phone_eq p q =
     (let number_equal = (number p = number q);
          phone_equal = (phone_type p = phone_type q)
      in number_equal \<and> phone_equal)"

text \<open>
  \<^verbatim>\<open>__hash__\<close>; the first argument is Python's \<^verbatim>\<open>hash\<close> on strings, which the program
  does not define.
\<close>

definition phone_hash :: "(string \<Rightarrow> int) \<Rightarrow> phone_number \<Rightarrow> int" where
  "phone_hash h p =
     (let num_hash = h (number p) * 37;
          type_hash = h (phone_type p) * 7
      in num_hash + type_hash)"

text \<open>\<^verbatim>\<open>re.sub("[^+0-9]", "", s)\<close>\<close>

definition keep_char :: "char \<Rightarrow> bool" where
  "keep_char c = (c = CHR ''+'' \<or> (CHR ''0'' \<le> c \<and> c \<le> CHR ''9''))"

definition strip_number :: "string \<Rightarrow> string" where
  "strip_number s = filter keep_char s"

definition from_vcf_line :: "string \<Rightarrow> bool \<Rightarrow> error + phone_number" where
  "from_vcf_line line preserve_type =
     (case re_match phone_pattern line of
        None \<Rightarrow> Inl (ValueError ''No line matched'')
      | Some groups \<Rightarrow>
          (case groups of
             g0 # g1 # _ \<Rightarrow>
               Inr \<lparr> number = strip_number g1,
                     phone_type = (if \<not> preserve_type then default_type else upper g0) \<rparr>
           | _ \<Rightarrow> Inl (ValueError ''Not enough info in the line'')))"

section \<open>VCFContact\<close>

record vcf_contact =
  phones :: "phone_number fset"
  other_info :: "string fset"
  categories :: "string fset"
  prefix :: string
  first_name :: string
  surname :: string
  middle_name :: string
  suffix :: string

definition contact_begin :: string where
  "contact_begin = ''BEGIN:VCARD''"

definition contact_end :: string where
  "contact_end = ''END:VCARD''"

definition vcf_version :: string where
  "vcf_version = ''VERSION:''"

definition category :: string where
  "category = ''CATEGORIES:''"

definition category_separator :: char where
  "category_separator = CHR '',''"

definition category_pattern :: "rx list" where
  "category_pattern = lits category @ [Greedy_Plus Dot]"

definition full_name_kw :: string where
  "full_name_kw = ''FN:''"

definition name_kw :: string where
  "name_kw = ''N:''"

text \<open>\<^verbatim>\<open>"N:" + "(.*?);(.*?);(.*?);(.*?);(.*?)"\<close>\<close>

definition name_pattern :: "rx list" where
  "name_pattern = lits name_kw @
     [Lazy_Star Dot, Lit CHR '';'', Lazy_Star Dot, Lit CHR '';'', Lazy_Star Dot, Lit CHR '';'',
      Lazy_Star Dot, Lit CHR '';'', Lazy_Star Dot]"

definition phone_kw :: string where
  "phone_kw = ''TEL;''"

text \<open>\<^verbatim>\<open>__init__\<close>\<close>

definition VCFContact :: vcf_contact where
  "VCFContact = \<lparr> phones = {||}, other_info = {||}, categories = {||}, prefix = [],
                  first_name = [], surname = [], middle_name = [], suffix = [] \<rparr>"

definition full_name_parts :: "vcf_contact \<Rightarrow> string list" where
  "full_name_parts c = [prefix c, first_name c, middle_name c, surname c, suffix c]"

definition name_parts :: "vcf_contact \<Rightarrow> string list" where
  "name_parts c = [surname c, first_name c, middle_name c, prefix c, suffix c]"

definition full_name :: "vcf_contact \<Rightarrow> string" where
  "full_name c = py_join '' '' (filter strip_nonempty (full_name_parts c))"

definition get_full_name_line :: "vcf_contact \<Rightarrow> string" where
  "get_full_name_line c = full_name_kw @ full_name c"

text \<open>\<^verbatim>\<open>"N:" + "%s;%s;%s;%s;%s" % (*self.name_parts,)\<close>\<close>

definition get_name_line :: "vcf_contact \<Rightarrow> string" where
  "get_name_line c = name_kw @ py_join '';'' (name_parts c)"

definition is_end_of_contact :: "string \<Rightarrow> bool" where
  "is_end_of_contact line = (line = contact_end)"

definition is_start_of_contact :: "string \<Rightarrow> bool" where
  "is_start_of_contact line = (line = contact_begin)"

definition is_version_line :: "string \<Rightarrow> bool" where
  "is_version_line line = startswith line vcf_version"

definition is_service_line :: "string \<Rightarrow> bool" where
  "is_service_line line =
     (let is_start = is_start_of_contact line;
          is_end = is_end_of_contact line;
          is_version = is_version_line line
      in is_start \<or> is_end \<or> is_version)"

definition is_phone_line :: "string \<Rightarrow> bool" where
  "is_phone_line line = startswith line phone_kw"

definition is_category_line :: "string \<Rightarrow> bool" where
  "is_category_line line = startswith line category"

definition is_name_line :: "string \<Rightarrow> bool" where
  "is_name_line line = startswith line name_kw"

definition is_full_name_line :: "string \<Rightarrow> bool" where
  "is_full_name_line line = startswith line full_name_kw"

definition add_name :: "vcf_contact \<Rightarrow> string \<Rightarrow> vcf_contact" where
  "add_name c line =
     (case re_match name_pattern line of
        None \<Rightarrow> c
      | Some groups \<Rightarrow>
          (case groups of
             [sn, fn, mn, pf, sf] \<Rightarrow>
               c\<lparr> surname := sn, first_name := fn, middle_name := mn, prefix := pf,
                  suffix := sf \<rparr>
           | _ \<Rightarrow> c))"

definition add_category :: "vcf_contact \<Rightarrow> string \<Rightarrow> vcf_contact" where
  "add_category c line =
     (case re_match category_pattern line of
        None \<Rightarrow> c
      | Some groups \<Rightarrow>
          (case groups of
             [] \<Rightarrow> c
           | g0 # _ \<Rightarrow>
               c\<lparr> categories :=
                    categories c |\<union>| fset_of_list (py_split category_separator g0) \<rparr>))"

definition add_phone :: "vcf_contact \<Rightarrow> string \<Rightarrow> vcf_contact" where
  "add_phone c line =
     (case from_vcf_line line False of
        Inl e \<Rightarrow> c
      | Inr phone \<Rightarrow> c\<lparr> phones := finsert phone (phones c) \<rparr>)"

definition add_line :: "vcf_contact \<Rightarrow> string \<Rightarrow> vcf_contact" where
  "add_line c line =
     (if is_service_line line then c
      else if is_name_line line then add_name c line
      else if is_phone_line line then add_phone c line
      else if is_category_line line then add_category c line
      else if is_full_name_line line then c
      else c\<lparr> other_info := finsert line (other_info c) \<rparr>)"

text \<open>
  \<^verbatim>\<open>"VERSION:" + "%.1f" % version\<close>. The argument is the text that \<^verbatim>\<open>"%.1f"\<close> makes of
  the floating-point version, \<^verbatim>\<open>"3.0"\<close> for the default 3.0.
\<close>

definition get_version :: "string \<Rightarrow> string" where
  "get_version version = vcf_version @ version"

definition default_version :: string where
  "default_version = ''3.0''"

text \<open>
  \<^verbatim>\<open>sorted([str(phone) for phone in self.phones])\<close>: the sorted list does not depend on
  the order in which the set is enumerated.
\<close>

definition get_sorted_phones :: "vcf_contact \<Rightarrow> string list" where
  "get_sorted_phones c =
     sorted_list_of_multiset (image_mset phone_str (mset_set (fset (phones c))))"

text \<open>
  Joining the categories and listing the other lines enumerate a Python set, in an
  order the language leaves open: it depends on how the set was filled and on the hash
  seed of the run. \<open>enum\<close> is the enumeration of one serialization; another run, or
  another pass over a text, has an enumeration of its own.
\<close>

definition get_categories :: "(string fset \<Rightarrow> string list) \<Rightarrow> vcf_contact \<Rightarrow> string option" where
  "get_categories enum c =
     (if categories c = {||} then None
      else Some (category @ py_join [category_separator] (enum (categories c))))"

definition is_empty :: "vcf_contact \<Rightarrow> bool" where
  "is_empty c = (fcard (phones c) = 0)"

text \<open>The list \<^verbatim>\<open>vcf\<close> that \<^verbatim>\<open>_to_vcf\<close> builds before joining it.\<close>

definition vcf_list ::
  "(string fset \<Rightarrow> string list) \<Rightarrow> string \<Rightarrow> bool \<Rightarrow> vcf_contact \<Rightarrow> string list" where
  "vcf_list enum version include_other_info c =
     [contact_begin, get_version version, get_full_name_line c, get_name_line c]
     @ (case get_categories enum c of
          None \<Rightarrow> []
        | Some cats \<Rightarrow> if cats \<noteq> [] then [cats] else [])
     @ get_sorted_phones c
     @ (if include_other_info then enum (other_info c) else [])
     @ [contact_end, [], []]"

text \<open>\<^verbatim>\<open>_to_vcf\<close>\<close>

definition to_vcf_inner ::
  "(string fset \<Rightarrow> string list) \<Rightarrow> string \<Rightarrow> bool \<Rightarrow> vcf_contact \<Rightarrow> string" where
  "to_vcf_inner enum version include_other_info c =
     py_join [nl] (vcf_list enum version include_other_info c)"

definition to_vcf ::
  "(string fset \<Rightarrow> string list) \<Rightarrow> string \<Rightarrow> bool \<Rightarrow> vcf_contact \<Rightarrow> error + string" where
  "to_vcf enum version include_other_info c =
     (if is_empty c then Inl (ValueError ''Empty contact'')
      else Inr (to_vcf_inner enum version include_other_info c))"

section \<open>Reading and writing files\<close>

text \<open>
  Opening, reading and writing the file are outside the model: \<open>parse_vcf_file\<close> takes
  the content read and \<open>write_contacts_to_vcf_file\<close> returns the content written.
\<close>

text \<open>The first loop of \<^verbatim>\<open>parse_vcf_file\<close>, on \<^verbatim>\<open>parsed_contracts\<close> and \<^verbatim>\<open>current_contact\<close>.\<close>

fun split_contacts :: "string list list \<Rightarrow> string list \<Rightarrow> string list \<Rightarrow> string list list" where
  "split_contacts parsed current [] = parsed"
| "split_contacts parsed current (line # ls) =
     (if is_end_of_contact line then split_contacts (parsed @ [current]) [] ls
      else if is_service_line line then split_contacts parsed current ls
      else split_contacts parsed (current @ [line]) ls)"

text \<open>The body of the second loop: a new contact, fed the lines of one group.\<close>

definition build_contact :: "string list \<Rightarrow> vcf_contact" where
  "build_contact contact_lines = foldl add_line VCFContact contact_lines"

definition parse_lines :: "string list \<Rightarrow> vcf_contact list" where
  "parse_lines vcf_lines = map build_contact (split_contacts [] [] vcf_lines)"

definition parse_vcf_file :: "string \<Rightarrow> vcf_contact list" where
  "parse_vcf_file content = parse_lines (py_split nl content)"

fun write_loop ::
  "(string fset \<Rightarrow> string list) \<Rightarrow> string \<Rightarrow> bool \<Rightarrow> string \<Rightarrow> vcf_contact list \<Rightarrow> string" where
  "write_loop enum version inc vcf_content [] = vcf_content"
| "write_loop enum version inc vcf_content (contact # cs) =
     (case to_vcf enum version inc contact of
        Inr text \<Rightarrow> write_loop enum version inc (vcf_content @ text) cs
      | Inl (ValueError _) \<Rightarrow> write_loop enum version inc vcf_content cs)"

definition write_contacts_to_vcf_file ::
  "(string fset \<Rightarrow> string list) \<Rightarrow> vcf_contact list \<Rightarrow> string \<Rightarrow> bool \<Rightarrow> string" where
  "write_contacts_to_vcf_file enum contacts version include_unprocessed_values =
     write_loop enum version include_unprocessed_values [] contacts"

text \<open>
  \<^verbatim>\<open>clean_vcf\<close>, from the content read to the content written back; \<open>enum\<close> is the
  enumeration of this call.
\<close>

definition clean_vcf :: "(string fset \<Rightarrow> string list) \<Rightarrow> string \<Rightarrow> string" where
  "clean_vcf enum content =
     write_contacts_to_vcf_file enum (parse_vcf_file content) default_version False"

section \<open>Enumerations for the examples\<close>

text \<open>Two ways to enumerate a set of strings: in ascending and in descending order.\<close>

definition sorted_enum :: "string fset \<Rightarrow> string list" where
  "sorted_enum S = sorted_list_of_set (fset S)"

definition rev_enum :: "string fset \<Rightarrow> string list" where
  "rev_enum S = rev (sorted_list_of_set (fset S))"

section \<open>What parsing guarantees\<close>

text \<open>
  The state of a contact that was built from lines without a newline character: the
  four name fields hold no semicolon and no newline, the suffix is empty, every phone
  has the default type and a number of digits and plus signs, and no category holds a
  comma or a newline.
\<close>

definition parsed_ok :: "vcf_contact \<Rightarrow> bool" where
  "parsed_ok c \<longleftrightarrow>
     (\<forall>s \<in> set [surname c, first_name c, middle_name c, prefix c].
        CHR '';'' \<notin> set s \<and> nl \<notin> set s)
     \<and> suffix c = []
     \<and> (\<forall>p \<in> fset (phones c). phone_type p = ''CELL'' \<and> (\<forall>ch \<in> set (number p). keep_char ch))
     \<and> (\<forall>t \<in> fset (categories c). CHR '','' \<notin> set t \<and> nl \<notin> set t)"

text \<open>
  The lines of a serialized contact between the version line and the end marker, when
  the other lines are not asked for.
\<close>

definition contact_body :: "(string fset \<Rightarrow> string list) \<Rightarrow> vcf_contact \<Rightarrow> string list" where
  "contact_body enum c =
     [get_full_name_line c, get_name_line c]
     @ (case get_categories enum c of
          None \<Rightarrow> []
        | Some cats \<Rightarrow> if cats \<noteq> [] then [cats] else [])
     @ get_sorted_phones c"

section \<open>The regular expressions of the program\<close>

lemma startswith_Nil [simp]: "startswith s []"
  by (simp add: startswith_def)

lemma startswith_Nil_Cons [simp]: "\<not> startswith [] (y # p)"
  by (simp add: startswith_def)

lemma startswith_Cons [simp]: "startswith (x # s) (y # p) \<longleftrightarrow> x = y \<and> startswith s p"
  by (simp add: startswith_def)

lemma startswith_append [simp]: "startswith (p @ s) p"
  by (simp add: startswith_def)

lemma re_match_lits:
  "re_match (lits a @ p) s = (if startswith s a then re_match p (drop (length a) s) else None)"
proof (induction a arbitrary: s)
  case Nil
  then show ?case by (simp add: lits_def startswith_def)
next
  case (Cons c a)
  then show ?case by (cases s) (auto simp: lits_def startswith_def)
qed

lemma word_not_colon: "\<not> in_class Word CHR '':''"
  by simp

lemma greedy_dot_end:
  "greedy_star Dot [] acc s = Some [acc @ takeWhile (\<lambda>c. c \<noteq> nl) s]"
  by (induction s arbitrary: acc) auto

lemma re_match_plus_dot:
  "re_match [Greedy_Plus Dot] s =
     (if s \<noteq> [] \<and> hd s \<noteq> nl then Some [takeWhile (\<lambda>c. c \<noteq> nl) s] else None)"
  by (cases s) (auto simp: greedy_dot_end)

lemma greedy_word_colon:
  "greedy_star Word (Lit CHR '':'' # p) acc s =
     (if dropWhile (in_class Word) s \<noteq> [] \<and> hd (dropWhile (in_class Word) s) = CHR '':''
      then map_option (Cons (acc @ takeWhile (in_class Word) s))
             (re_match p (tl (dropWhile (in_class Word) s)))
      else None)"
proof (induction s arbitrary: acc)
  case Nil
  then show ?case by simp
next
  case (Cons x xs)
  show ?case
  proof (cases "in_class Word x")
    case True
    then have ne: "x \<noteq> CHR '':''" using word_not_colon by auto
    have "greedy_star Word (Lit CHR '':'' # p) acc (x # xs)
            = greedy_star Word (Lit CHR '':'' # p) (acc @ [x]) xs"
      using True ne by (simp del: in_class.simps split: option.splits)
    then show ?thesis
      using True by (simp add: Cons.IH del: in_class.simps)
  next
    case False
    then show ?thesis using word_not_colon by (auto simp del: in_class.simps)
  qed
qed

lemma re_match_phone_pattern:
  assumes "t \<noteq> []" and "\<forall>c \<in> set t. in_class Word c" and "r \<noteq> []" and "hd r \<noteq> nl"
  shows "re_match phone_pattern (phone_line @ type_line @ t @ [CHR '':''] @ r)
           = Some [t, takeWhile (\<lambda>c. c \<noteq> nl) r]"
proof -
  obtain x t' where t: "t = x # t'" using assms(1) by (cases t) auto
  have tw: "takeWhile (in_class Word) (t' @ CHR '':'' # r) = t'"
    using assms(2) word_not_colon unfolding t
    by (simp add: takeWhile_tail del: in_class.simps)
  have dw: "dropWhile (in_class Word) (t' @ CHR '':'' # r) = CHR '':'' # r"
    using assms(2) word_not_colon unfolding t
    by (simp add: dropWhile_append3 del: in_class.simps)
  have "re_match phone_pattern (phone_line @ type_line @ t @ [CHR '':''] @ r)
          = re_match [Greedy_Plus Word, Lit CHR '':'', Greedy_Plus Dot] (t @ CHR '':'' # r)"
    unfolding phone_pattern_def re_match_lits by (simp add: startswith_def)
  also have "\<dots> = Some [t, takeWhile (\<lambda>c. c \<noteq> nl) r]"
    using assms(2,3,4) unfolding t
    by (simp add: greedy_word_colon tw dw re_match_plus_dot del: in_class.simps)
  finally show ?thesis .
qed

lemma takeWhile_all: "x \<notin> set r \<Longrightarrow> takeWhile (\<lambda>c. c \<noteq> x) r = r"
  by (induction r) auto

lemma from_vcf_line_groups:
  assumes "t \<noteq> []" and "\<forall>c \<in> set t. in_class Word c" and "r \<noteq> []" and "nl \<notin> set r"
  shows "from_vcf_line (''TEL;TYPE='' @ t @ '':'' @ r) preserve_type =
           Inr \<lparr> number = strip_number r,
                 phone_type = (if preserve_type then upper t else ''CELL'') \<rparr>"
proof -
  have "hd r \<noteq> nl" using assms(3,4) by (cases r) auto
  from re_match_phone_pattern [OF assms(1,2,3) this]
  have "re_match phone_pattern (''TEL;TYPE='' @ t @ '':'' @ r) = Some [t, r]"
    using assms(4) by (simp add: phone_line_def type_line_def takeWhile_all)
  then show ?thesis
    by (simp add: from_vcf_line_def default_type_def)
qed

section \<open>Parsing a phone line\<close>

text \<open>
  C5. On a line \<^verbatim>\<open>TEL;TYPE=<word>:<rest>\<close> (a non-empty word of \<^verbatim>\<open>\w\<close> characters, a
  non-empty rest), \<open>from_vcf_line\<close> returns a phone number whose number is the rest
  with every character other than a digit or \<^verbatim>\<open>+\<close> removed, and whose type is the word
  in upper case when \<open>preserve_type\<close> holds and \<^verbatim>\<open>CELL\<close> otherwise.
\<close>

theorem from_vcf_line_normalizes:
  assumes "t \<noteq> []" and "\<forall>c \<in> set t. in_class Word c" and "r \<noteq> []" and "nl \<notin> set r"
  shows "from_vcf_line (''TEL;TYPE='' @ t @ '':'' @ r) preserve_type =
           Inr \<lparr> number = filter (\<lambda>c. c = CHR ''+'' \<or> (CHR ''0'' \<le> c \<and> c \<le> CHR ''9'')) r,
                 phone_type = (if preserve_type then upper t else ''CELL'') \<rparr>"
  using from_vcf_line_groups [OF assms] by (simp add: strip_number_def keep_char_def [abs_def])

text \<open>
  The two lines the specification gives, and a lower-case type that is preserved.
\<close>

theorem from_vcf_line_normalizes_witness:
  "from_vcf_line ''TEL;TYPE=CELL:(555) 123-4567'' False
     = Inr \<lparr> number = ''5551234567'', phone_type = ''CELL'' \<rparr>
   \<and> map_sum id phone_str (from_vcf_line ''TEL;TYPE=WORK:12345'' False)
     = Inr ''TEL;TYPE=CELL:12345''
   \<and> from_vcf_line ''TEL;TYPE=work:12345'' True
     = Inr \<lparr> number = ''12345'', phone_type = ''WORK'' \<rparr>"
proof -
  have up: "upper ''work'' = ''WORK''" by code_simp
  show ?thesis
    using from_vcf_line_normalizes [of "''CELL''" "''(555) 123-4567''" False]
      from_vcf_line_normalizes [of "''WORK''" "''12345''" False]
      from_vcf_line_normalizes [of "''work''" "''12345''" True]
    by (simp add: nl_def phone_str_def phone_line_def type_line_def up)
qed

lemma startswithD: "startswith line p \<Longrightarrow> \<exists>rest. line = p @ rest"
  unfolding startswith_def by (metis append_take_drop_id)

lemma add_line_phone: 
  assumes "is_phone_line line" shows "add_line c line = add_phone c line"
proof -
  obtain rest where "line = ''TEL;'' @ rest"
    using assms startswithD unfolding is_phone_line_def phone_kw_def by blast
  then show ?thesis
    by (simp add: add_line_def is_service_line_def is_start_of_contact_def
        is_end_of_contact_def is_version_line_def is_name_line_def is_phone_line_def
        contact_begin_def contact_end_def vcf_version_def name_kw_def phone_kw_def)
qed

lemma set_get_sorted_phones: "set (get_sorted_phones c) = phone_str ` fset (phones c)"
  by (simp add: get_sorted_phones_def)

lemma get_sorted_phones_single:
  "phones c = {|p|} \<Longrightarrow> get_sorted_phones c = [phone_str p]"
  by (simp add: get_sorted_phones_def)

text \<open>
  C10. A line \<^verbatim>\<open>TEL;TYPE=<word>:<rest>\<close> whose rest holds no digit and no \<^verbatim>\<open>+\<close> is
  parsed without error into a phone number with the empty number. The contact that
  receives the line is not empty, and the phone is rendered as \<^verbatim>\<open>TEL;TYPE=CELL:\<close> with
  nothing after the colon.
\<close>

theorem from_vcf_line_empty_number:
  assumes "t \<noteq> []" and "\<forall>c \<in> set t. in_class Word c" and "r \<noteq> []" and "nl \<notin> set r"
    and "\<forall>c \<in> set r. c \<noteq> CHR ''+'' \<and> \<not> (CHR ''0'' \<le> c \<and> c \<le> CHR ''9'')"
  shows "from_vcf_line (''TEL;TYPE='' @ t @ '':'' @ r) False
           = Inr \<lparr> number = [], phone_type = ''CELL'' \<rparr>
         \<and> \<not> is_empty (add_line c (''TEL;TYPE='' @ t @ '':'' @ r))
         \<and> phone_str \<lparr> number = [], phone_type = ''CELL'' \<rparr> = ''TEL;TYPE=CELL:''
         \<and> ''TEL;TYPE=CELL:'' \<in> set (get_sorted_phones (add_line c (''TEL;TYPE='' @ t @ '':'' @ r)))
         \<and> get_sorted_phones (add_line VCFContact (''TEL;TYPE='' @ t @ '':'' @ r))
             = [''TEL;TYPE=CELL:'']"
proof -
  let ?line = "''TEL;TYPE='' @ t @ '':'' @ r"
  let ?p = "\<lparr> number = [], phone_type = ''CELL'' \<rparr>"
  have "strip_number r = []"
    using assms(5) by (auto simp: strip_number_def keep_char_def filter_empty_conv)
  with from_vcf_line_groups [OF assms(1-4), of False]
  have frm: "from_vcf_line ?line False = Inr ?p" by simp
  have "is_phone_line ?line" by (simp add: is_phone_line_def phone_kw_def)
  then have add: "add_line c' ?line = c'\<lparr> phones := finsert ?p (phones c') \<rparr>" for c'
    using frm by (simp add: add_line_phone add_phone_def)
  have str: "phone_str ?p = ''TEL;TYPE=CELL:''"
    by (simp add: phone_str_def phone_line_def type_line_def)
  have "\<not> is_empty (add_line c ?line)"
    unfolding add by (simp add: is_empty_def)
  moreover have "''TEL;TYPE=CELL:'' \<in> set (get_sorted_phones (add_line c ?line))"
    unfolding add set_get_sorted_phones using str by (simp add: rev_image_eqI)
  moreover have "get_sorted_phones (add_line VCFContact ?line) = [''TEL;TYPE=CELL:'']"
    unfolding add using get_sorted_phones_single [of _ ?p] str by (simp add: VCFContact_def)
  ultimately show ?thesis using frm str by blast
qed

theorem from_vcf_line_empty_number_witness:
  "from_vcf_line ''TEL;TYPE=HOME:n/a'' False = Inr \<lparr> number = [], phone_type = ''CELL'' \<rparr>
   \<and> \<not> is_empty (add_line VCFContact ''TEL;TYPE=HOME:n/a'')
   \<and> get_sorted_phones (add_line VCFContact ''TEL;TYPE=HOME:n/a'') = [''TEL;TYPE=CELL:'']"
  using from_vcf_line_empty_number [of "''HOME''" "''n/a''" VCFContact]
  by (simp add: nl_def)

section \<open>Parsing a name line\<close>

lemma re_match_lazy_last: "re_match [Lazy_Star k] s = Some [[]]"
  by (cases s) auto

lemma semi_not_nl [simp]: "CHR '';'' \<noteq> nl" "nl \<noteq> CHR '';''"
  by (simp_all add: nl_def)

lemma lazy_dot_semi_none:
  "CHR '';'' \<notin> set (takeWhile (\<lambda>c. c \<noteq> nl) s) \<Longrightarrow>
     lazy_star Dot (Lit CHR '';'' # p) acc s = None"
  by (induction s arbitrary: acc) (auto split: if_splits)

lemma lazy_dot_semi_some:
  assumes "CHR '';'' \<notin> set a" and "nl \<notin> set a" and "re_match p r = Some gs"
  shows "lazy_star Dot (Lit CHR '';'' # p) acc (a @ CHR '';'' # r) = Some ((acc @ a) # gs)"
  using assms by (induction a arbitrary: acc) auto

lemma lazy_dot_semi_retry:
  assumes "CHR '';'' \<notin> set a" and "nl \<notin> set a" and "re_match p r = None"
  shows "lazy_star Dot (Lit CHR '';'' # p) acc (a @ CHR '';'' # r)
           = lazy_star Dot (Lit CHR '';'' # p) (acc @ a @ '';'') r"
  using assms by (induction a arbitrary: acc) auto

lemma re_match_name_pattern:
  assumes "CHR '';'' \<notin> set (a @ b @ c @ d)" and "nl \<notin> set (a @ b @ c @ d)"
  shows "re_match name_pattern (''N:'' @ a @ '';'' @ b @ '';'' @ c @ '';'' @ d @ '';'' @ rest)
           = Some [a, b, c, d, []]"
proof -
  let ?semi = "Lit CHR '';''" and ?f = "Lazy_Star Dot"
  have 4: "re_match [?f, ?semi, ?f] (d @ CHR '';'' # rest) = Some [d, []]"
    using assms lazy_dot_semi_some [where a = d and r = rest and acc = "[]", OF _ _ re_match_lazy_last] by simp
  have 3: "re_match [?f, ?semi, ?f, ?semi, ?f] (c @ CHR '';'' # d @ CHR '';'' # rest)
             = Some [c, d, []]"
    using assms lazy_dot_semi_some [where a = c and acc = "[]", OF _ _ 4] by simp
  have 2: "re_match [?f, ?semi, ?f, ?semi, ?f, ?semi, ?f]
             (b @ CHR '';'' # c @ CHR '';'' # d @ CHR '';'' # rest) = Some [b, c, d, []]"
    using assms lazy_dot_semi_some [where a = b and acc = "[]", OF _ _ 3] by simp
  have 1: "re_match [?f, ?semi, ?f, ?semi, ?f, ?semi, ?f, ?semi, ?f]
             (a @ CHR '';'' # b @ CHR '';'' # c @ CHR '';'' # d @ CHR '';'' # rest)
             = Some [a, b, c, d, []]"
    using assms lazy_dot_semi_some [where a = a and acc = "[]", OF _ _ 2] by simp
  show ?thesis
    unfolding name_pattern_def name_kw_def re_match_lits using 1 by simp
qed

lemma count_list_pos_decomp:
  "0 < count_list s x \<Longrightarrow> \<exists>a r. s = a @ x # r \<and> x \<notin> set a \<and> count_list s x = Suc (count_list r x)"
proof (induction s)
  case Nil
  then show ?case by simp
next
  case (Cons y s)
  show ?case
  proof (cases "y = x")
    case True
    then have "y # s = [] @ x # s \<and> x \<notin> set [] \<and> count_list (y # s) x = Suc (count_list s x)"
      by simp
    then show ?thesis by blast
  next
    case False
    with Cons obtain a r where "s = a @ x # r" "x \<notin> set a" "count_list s x = Suc (count_list r x)"
      by auto
    with False have "y # s = (y # a) @ x # r \<and> x \<notin> set (y # a)
        \<and> count_list (y # s) x = Suc (count_list r x)"
      by simp
    then show ?thesis by blast
  qed
qed

lemma py_split_first:
  "sep \<notin> set a \<Longrightarrow> py_split sep (a @ sep # r) = a # py_split sep r"
  by (induction a) (auto simp: Let_def)

lemma add_name_fields:
  assumes "CHR '';'' \<notin> set (a @ b @ c @ d)" and "nl \<notin> set (a @ b @ c @ d)"
  shows "add_name k (''N:'' @ a @ '';'' @ b @ '';'' @ c @ '';'' @ d @ '';'' @ rest)
           = k\<lparr> surname := a, first_name := b, middle_name := c, prefix := d, suffix := [] \<rparr>"
  unfolding add_name_def re_match_name_pattern [OF assms] by simp

text \<open>
  C9. On every line that begins with \<^verbatim>\<open>N:\<close> and has at least four \<^verbatim>\<open>;\<close> after that prefix,
  the name pattern matches and \<open>add_name\<close> stores the first four fields and the empty
  string as suffix, whatever follows the fourth \<^verbatim>\<open>;\<close>: the last group of the pattern is
  lazy and nothing anchors it, so it matches the empty string.
\<close>

theorem add_name_drops_suffix:
  assumes "startswith line ''N:''" and "4 \<le> count_list (drop 2 line) CHR '';''"
    and "nl \<notin> set line"
  shows "re_match name_pattern line \<noteq> None
         \<and> suffix (add_name k line) = []
         \<and> add_name k line =
             k\<lparr> surname := py_split CHR '';'' (drop 2 line) ! 0,
                first_name := py_split CHR '';'' (drop 2 line) ! 1,
                middle_name := py_split CHR '';'' (drop 2 line) ! 2,
                prefix := py_split CHR '';'' (drop 2 line) ! 3,
                suffix := [] \<rparr>"
proof -
  obtain body where line: "line = ''N:'' @ body"
    using assms(1) startswithD by blast
  then have body: "drop 2 line = body" by simp
  have n: "4 \<le> count_list body CHR '';''" using assms(2) body by simp
  obtain a r1 where 1: "body = a @ CHR '';'' # r1" "CHR '';'' \<notin> set a"
      "count_list body CHR '';'' = Suc (count_list r1 CHR '';'')"
    using count_list_pos_decomp [of body "CHR '';''"] n by auto
  obtain b r2 where 2: "r1 = b @ CHR '';'' # r2" "CHR '';'' \<notin> set b"
      "count_list r1 CHR '';'' = Suc (count_list r2 CHR '';'')"
    using count_list_pos_decomp [of r1 "CHR '';''"] n 1(3) by auto
  obtain c r3 where 3: "r2 = c @ CHR '';'' # r3" "CHR '';'' \<notin> set c"
      "count_list r2 CHR '';'' = Suc (count_list r3 CHR '';'')"
    using count_list_pos_decomp [of r2 "CHR '';''"] n 1(3) 2(3) by auto
  obtain d rest where 4: "r3 = d @ CHR '';'' # rest" "CHR '';'' \<notin> set d"
    using count_list_pos_decomp [of r3 "CHR '';''"] n 1(3) 2(3) 3(3) by auto
  have shape: "line = ''N:'' @ a @ '';'' @ b @ '';'' @ c @ '';'' @ d @ '';'' @ rest"
    using line 1(1) 2(1) 3(1) 4(1) by simp
  have semi: "CHR '';'' \<notin> set (a @ b @ c @ d)"
    using 1(2) 2(2) 3(2) 4(2) by simp
  have nonl: "nl \<notin> set (a @ b @ c @ d)"
    using assms(3) unfolding shape by simp
  have split: "py_split CHR '';'' body = a # b # c # d # py_split CHR '';'' rest"
    using 1(1,2) 2(1,2) 3(1,2) 4(1,2) by (simp add: py_split_first)
  have m: "re_match name_pattern line = Some [a, b, c, d, []]"
    unfolding shape by (rule re_match_name_pattern [OF semi nonl])
  have "add_name k line =
      k\<lparr> surname := a, first_name := b, middle_name := c, prefix := d, suffix := [] \<rparr>"
    unfolding shape by (rule add_name_fields [OF semi nonl])
  then show ?thesis using m by (simp add: body split)
qed

theorem add_name_drops_suffix_witness:
  "re_match name_pattern ''N:Smith;John;;;Jr.'' \<noteq> None
   \<and> add_name VCFContact ''N:Smith;John;;;Jr.''
       = VCFContact\<lparr> surname := ''Smith'', first_name := ''John'', middle_name := [],
                      prefix := [], suffix := [] \<rparr>
   \<and> get_name_line (add_name VCFContact ''N:Smith;John;;;Jr.'') = ''N:Smith;John;;;''"
  using add_name_drops_suffix [of "''N:Smith;John;;;Jr.''" VCFContact]
  by (simp add: nl_def get_name_line_def name_parts_def name_kw_def)

section \<open>Dispatching a line\<close>

lemma add_line_name:
  assumes "is_name_line line" shows "add_line c line = add_name c line"
proof -
  obtain rest where "line = ''N:'' @ rest"
    using assms startswithD unfolding is_name_line_def name_kw_def by blast
  then show ?thesis
    by (simp add: add_line_def is_service_line_def is_start_of_contact_def
        is_end_of_contact_def is_version_line_def is_name_line_def
        contact_begin_def contact_end_def vcf_version_def name_kw_def)
qed

lemma add_line_category:
  assumes "is_category_line line" shows "add_line c line = add_category c line"
proof -
  obtain rest where "line = ''CATEGORIES:'' @ rest"
    using assms startswithD unfolding is_category_line_def category_def by blast
  then show ?thesis
    by (simp add: add_line_def is_service_line_def is_start_of_contact_def
        is_end_of_contact_def is_version_line_def is_name_line_def is_phone_line_def
        is_category_line_def contact_begin_def contact_end_def vcf_version_def name_kw_def
        phone_kw_def category_def)
qed

lemma re_match_category_pattern:
  "re_match category_pattern line =
     (if startswith line category \<and> drop (length category) line \<noteq> []
         \<and> hd (drop (length category) line) \<noteq> nl
      then Some [takeWhile (\<lambda>c. c \<noteq> nl) (drop (length category) line)] else None)"
  unfolding category_pattern_def re_match_lits re_match_plus_dot by simp

lemma add_category_tokens:
  assumes "v \<noteq> []" and "nl \<notin> set v"
  shows "add_category c (''CATEGORIES:'' @ v)
           = c\<lparr> categories := categories c |\<union>| fset_of_list (py_split CHR '','' v) \<rparr>"
proof -
  have "hd v \<noteq> nl" using assms by (cases v) auto
  then have "re_match category_pattern (category @ v) = Some [v]"
    using assms by (simp add: re_match_category_pattern takeWhile_all)
  then show ?thesis
    by (simp add: add_category_def category_separator_def category_def)
qed




section \<open>Lines that fail their pattern\<close>

lemma foldl_add_line_filter:
  assumes "\<And>k. add_line k line = k"
  shows "foldl add_line c (filter (\<lambda>l. l \<noteq> line) ls) = foldl add_line c ls"
  by (induction ls arbitrary: c) (simp_all add: assms)

lemma split_contacts_filter:
  assumes "\<not> is_end_of_contact line" and "\<not> is_service_line line"
  shows "split_contacts (map (filter (\<lambda>l. l \<noteq> line)) parsed) (filter (\<lambda>l. l \<noteq> line) current)
           (filter (\<lambda>l. l \<noteq> line) ls)
         = map (filter (\<lambda>l. l \<noteq> line)) (split_contacts parsed current ls)"
proof (induction ls arbitrary: parsed current)
  case Nil
  then show ?case by simp
next
  case (Cons l ls)
  show ?case
  proof (cases "l = line")
    case True
    then show ?thesis
      using assms Cons.IH [of parsed "current @ [line]"] by simp
  next
    case False
    then show ?thesis
      using Cons.IH [of "parsed @ [current]" "[]"] Cons.IH [of parsed current]
        Cons.IH [of parsed "current @ [l]"]
      by simp
  qed
qed

lemma parse_lines_filter:
  assumes "\<And>k. add_line k line = k" and "\<not> is_end_of_contact line"
    and "\<not> is_service_line line"
  shows "parse_lines (filter (\<lambda>l. l \<noteq> line) ls) = parse_lines ls"
proof -
  have b: "build_contact (filter (\<lambda>l. l \<noteq> line) g) = build_contact g" for g
    unfolding build_contact_def by (rule foldl_add_line_filter [OF assms(1)])
  have "parse_lines (filter (\<lambda>l. l \<noteq> line) ls)
      = map build_contact (map (filter (\<lambda>l. l \<noteq> line)) (split_contacts [] [] ls))"
    unfolding parse_lines_def using split_contacts_filter [OF assms(2,3), of "[]" "[]" ls]
    by simp
  also have "\<dots> = map build_contact (split_contacts [] [] ls)"
    by (simp add: b)
  finally show ?thesis by (simp add: parse_lines_def)
qed

lemma not_service_name: "is_name_line line \<Longrightarrow> \<not> is_service_line line"
  using startswithD [of line "''N:''"]
  by (auto simp: is_service_line_def is_start_of_contact_def is_name_line_def
      is_end_of_contact_def is_version_line_def contact_begin_def contact_end_def
      vcf_version_def name_kw_def)

lemma not_service_phone: "is_phone_line line \<Longrightarrow> \<not> is_service_line line"
  using startswithD [of line "''TEL;''"]
  by (auto simp: is_service_line_def is_start_of_contact_def is_phone_line_def
      is_end_of_contact_def is_version_line_def contact_begin_def contact_end_def
      vcf_version_def phone_kw_def)

lemma not_service_category: "is_category_line line \<Longrightarrow> \<not> is_service_line line"
  using startswithD [of line "''CATEGORIES:''"]
  by (auto simp: is_service_line_def is_start_of_contact_def is_category_line_def
      is_end_of_contact_def is_version_line_def contact_begin_def contact_end_def
      vcf_version_def category_def)

lemma service_end: "is_end_of_contact line \<Longrightarrow> is_service_line line"
  by (simp add: is_service_line_def)

text \<open>
  C6. A line that is dispatched as a name, phone or category line and does not match
  the pattern of its kind (a \<^verbatim>\<open>TEL;TYPE=X\<close> without the colon, say) leaves the contact as
  it was: no error leaves \<open>add_line\<close>, the error of \<open>from_vcf_line\<close> is caught. The lines
  around it are processed as if the line were absent, in the contact and in the file.
\<close>

theorem malformed_line_dropped:
  assumes "(is_name_line line \<and> re_match name_pattern line = None)
         \<or> (is_phone_line line \<and> re_match phone_pattern line = None)
         \<or> (is_category_line line \<and> re_match category_pattern line = None)"
  shows "add_line c line = c
         \<and> (is_phone_line line \<longrightarrow> from_vcf_line line False = Inl (ValueError ''No line matched''))
         \<and> build_contact (pre @ line # post) = build_contact (pre @ post)
         \<and> parse_lines (before @ line # after) = parse_lines (before @ after)"
proof -
  have ns: "\<not> is_service_line line"
    using assms not_service_name not_service_phone not_service_category by blast
  then have ne: "\<not> is_end_of_contact line" using service_end by blast
  have excl: "is_phone_line line \<Longrightarrow> \<not> is_name_line line"
    using startswithD [of line "''TEL;''"]
    by (auto simp: is_phone_line_def is_name_line_def phone_kw_def name_kw_def)
  have excl2: "is_phone_line line \<Longrightarrow> \<not> is_category_line line"
    using startswithD [of line "''TEL;''"]
    by (auto simp: is_phone_line_def is_category_line_def phone_kw_def category_def)
  have ph: "is_phone_line line \<Longrightarrow> re_match phone_pattern line = None"
    using assms excl excl2 by blast
  have same: "add_line k line = k" for k
    using assms
    by (auto simp: add_line_name add_line_phone add_line_category add_name_def add_phone_def
        add_category_def from_vcf_line_def)
  have 1: "foldl add_line k (pre @ line # post) = foldl add_line k (pre @ post)" for k
    by (simp add: same)
  have "parse_lines (filter (\<lambda>l. l \<noteq> line) (before @ line # after))
      = parse_lines (filter (\<lambda>l. l \<noteq> line) (before @ after))"
    by simp
  then have 2: "parse_lines (before @ line # after) = parse_lines (before @ after)"
    unfolding parse_lines_filter [OF same ne ns] .
  show ?thesis
    using same [of c] ph 1 [of VCFContact] 2
    by (simp add: build_contact_def from_vcf_line_def)
qed

theorem malformed_line_dropped_witness:
  "re_match phone_pattern ''TEL;TYPE=X'' = None
   \<and> add_line VCFContact ''TEL;TYPE=X'' = VCFContact
   \<and> parse_lines [''N:Doe;Jane;;;'', ''TEL;TYPE=X'', ''TEL;TYPE=CELL:1'', ''END:VCARD'']
     = parse_lines [''N:Doe;Jane;;;'', ''TEL;TYPE=CELL:1'', ''END:VCARD'']"
proof -
  have m: "re_match phone_pattern ''TEL;TYPE=X'' = None" by code_simp
  have p: "is_phone_line ''TEL;TYPE=X''" by (simp add: is_phone_line_def phone_kw_def)
  show ?thesis
    using malformed_line_dropped [of "''TEL;TYPE=X''" VCFContact "[]" "[]" "[''N:Doe;Jane;;;'']"
        "[''TEL;TYPE=CELL:1'', ''END:VCARD'']"] m p
    by simp
qed

section \<open>Grouping the lines of a file\<close>

lemma py_split_nonempty [simp]: "py_split sep s \<noteq> []"
  by (induction s) (auto simp: Let_def)

lemma py_split_append:
  "py_split sep (a @ sep # b) = py_split sep a @ py_split sep b"
proof (induction a)
  case Nil
  then show ?case by simp
next
  case (Cons x a)
  then show ?case by (cases "py_split sep a") (auto simp: Let_def)
qed

lemma split_contacts_no_end:
  "\<forall>l \<in> set ls. \<not> is_end_of_contact l \<Longrightarrow> split_contacts parsed current ls = parsed"
  by (induction ls arbitrary: current) auto

lemma split_contacts_tail:
  "\<forall>l \<in> set tail. \<not> is_end_of_contact l \<Longrightarrow>
     split_contacts parsed current (ls @ tail) = split_contacts parsed current ls"
  by (induction ls arbitrary: parsed current) (auto simp: split_contacts_no_end)

lemma length_split_contacts:
  "length (split_contacts parsed current ls) = length parsed + count_list ls contact_end"
  by (induction ls arbitrary: parsed current) (auto simp: is_end_of_contact_def)

text \<open>
  C8. Lines after the last end marker are discarded: lines without an end marker,
  appended to any input, leave the parsed contacts as they were, and alone they give
  no contact. The same holds of the text read, and the number of contacts is the
  number of end markers.
\<close>

theorem trailing_group_discarded:
  assumes "\<forall>l \<in> set tail. \<not> is_end_of_contact l"
  shows "parse_lines (ls @ tail) = parse_lines ls
         \<and> parse_lines tail = []
         \<and> ((\<forall>l \<in> set (py_split nl rest). \<not> is_end_of_contact l) \<longrightarrow>
              parse_vcf_file (content @ nl # rest) = parse_vcf_file content)
         \<and> length (parse_vcf_file content) = count_list (py_split nl content) contact_end"
proof -
  have 1: "parse_lines (ls @ tail) = parse_lines ls"
    by (simp add: parse_lines_def split_contacts_tail [OF assms])
  have 2: "parse_lines tail = []"
    by (simp add: parse_lines_def split_contacts_no_end [OF assms])
  have 3: "parse_vcf_file (content @ nl # rest) = parse_vcf_file content"
    if "\<forall>l \<in> set (py_split nl rest). \<not> is_end_of_contact l"
    by (simp add: parse_vcf_file_def parse_lines_def py_split_append split_contacts_tail [OF that])
  have 4: "length (parse_vcf_file content) = count_list (py_split nl content) contact_end"
    by (simp add: parse_vcf_file_def parse_lines_def length_split_contacts)
  show ?thesis using 1 2 3 4 by blast
qed

theorem trailing_group_discarded_witness:
  "parse_lines ([''TEL;TYPE=CELL:1'', ''END:VCARD''] @ [''N:Doe;Jane;;;'', ''TEL;TYPE=CELL:2''])
     = parse_lines [''TEL;TYPE=CELL:1'', ''END:VCARD'']
   \<and> parse_lines [''N:Doe;Jane;;;'', ''TEL;TYPE=CELL:2''] = []
   \<and> length (parse_lines [''TEL;TYPE=CELL:1'', ''END:VCARD'', ''N:Doe;Jane;;;'', ''TEL;TYPE=CELL:2'']) = 1"
proof -
  have t: "\<forall>l \<in> set [''N:Doe;Jane;;;'', ''TEL;TYPE=CELL:2'']. \<not> is_end_of_contact l"
    by (simp add: is_end_of_contact_def contact_end_def)
  have l: "length (parse_lines [''TEL;TYPE=CELL:1'', ''END:VCARD'']) = 1"
    by (simp add: parse_lines_def is_end_of_contact_def is_service_line_def contact_end_def
        is_start_of_contact_def is_version_line_def contact_begin_def vcf_version_def)
  from trailing_group_discarded [OF t, of "[''TEL;TYPE=CELL:1'', ''END:VCARD'']"] l
  show ?thesis by simp
qed

section \<open>Serializing contacts\<close>

lemma write_loop_concat:
  "write_loop enum version inc acc cs
     = acc @ concat (map (to_vcf_inner enum version inc) (filter (\<lambda>c. \<not> is_empty c) cs))"
  by (induction cs arbitrary: acc) (auto simp: to_vcf_def)

text \<open>
  C3. \<open>to_vcf\<close> fails, with the error for an empty contact, exactly when the contact is
  empty, which is when its set of phones is empty. \<open>write_contacts_to_vcf_file\<close> leaves
  out every contact whose serialization fails so and writes the texts of the others
  one after the other, in the order of the list.
\<close>

theorem to_vcf_empty_write_skips:
  "((\<exists>e. to_vcf enum version inc c = Inl e) \<longleftrightarrow> is_empty c)
   \<and> (is_empty c \<longleftrightarrow> phones c = {||})
   \<and> to_vcf enum version inc c =
       (if is_empty c then Inl (ValueError ''Empty contact'')
        else Inr (to_vcf_inner enum version inc c))
   \<and> write_contacts_to_vcf_file enum contacts version inc
       = concat (map (to_vcf_inner enum version inc) (filter (\<lambda>c. \<not> is_empty c) contacts))"
  by (simp add: to_vcf_def is_empty_def write_contacts_to_vcf_file_def write_loop_concat)

theorem to_vcf_empty_write_skips_witness:
  "to_vcf sorted_enum ''3.0'' False (VCFContact\<lparr> surname := ''Doe'' \<rparr>)
     = Inl (ValueError ''Empty contact'')
   \<and> write_contacts_to_vcf_file sorted_enum
       [VCFContact\<lparr> phones := {|\<lparr>number = ''1'', phone_type = ''CELL''\<rparr>|} \<rparr>,
        VCFContact\<lparr> surname := ''Doe'' \<rparr>,
        VCFContact\<lparr> phones := {|\<lparr>number = ''2'', phone_type = ''CELL''\<rparr>|} \<rparr>] ''3.0'' False
     = to_vcf_inner sorted_enum ''3.0'' False
         (VCFContact\<lparr> phones := {|\<lparr>number = ''1'', phone_type = ''CELL''\<rparr>|} \<rparr>)
       @ to_vcf_inner sorted_enum ''3.0'' False
         (VCFContact\<lparr> phones := {|\<lparr>number = ''2'', phone_type = ''CELL''\<rparr>|} \<rparr>)"
  using to_vcf_empty_write_skips [of sorted_enum "''3.0''" False "VCFContact\<lparr> surname := ''Doe'' \<rparr>"
      "[VCFContact\<lparr> phones := {|\<lparr>number = ''1'', phone_type = ''CELL''\<rparr>|} \<rparr>,
        VCFContact\<lparr> surname := ''Doe'' \<rparr>,
        VCFContact\<lparr> phones := {|\<lparr>number = ''2'', phone_type = ''CELL''\<rparr>|} \<rparr>]"]
  by (simp add: is_empty_def VCFContact_def)

lemma sorted_get_sorted_phones: "sorted (get_sorted_phones c)"
  by (simp add: get_sorted_phones_def)

lemma mset_get_sorted_phones:
  "mset (get_sorted_phones c) = image_mset phone_str (mset_set (fset (phones c)))"
  by (simp add: get_sorted_phones_def)

text \<open>
  C4. The text of a contact that is not empty is made of these lines, in this order and
  joined by a newline: the begin marker, the version line, the full-name line, the
  name line, the categories line when there is a category, the phone lines in ascending
  order, the other lines when they are asked for, the end marker and two empty lines.
  The phone lines are the renderings of the phones of the contact.
\<close>

theorem to_vcf_layout:
  assumes "\<not> is_empty c"
  shows "to_vcf enum version inc c = Inr (py_join [nl]
           ([''BEGIN:VCARD'', ''VERSION:'' @ version, ''FN:'' @ full_name c,
             ''N:'' @ surname c @ '';'' @ first_name c @ '';'' @ middle_name c @ '';''
               @ prefix c @ '';'' @ suffix c]
            @ (if categories c \<noteq> {||}
               then [''CATEGORIES:'' @ py_join '','' (enum (categories c))] else [])
            @ get_sorted_phones c
            @ (if inc then enum (other_info c) else [])
            @ [''END:VCARD'', [], []]))
         \<and> sorted (get_sorted_phones c)
         \<and> mset (get_sorted_phones c) = image_mset phone_str (mset_set (fset (phones c)))"
  using assms
  by (simp add: to_vcf_def to_vcf_inner_def vcf_list_def contact_begin_def get_version_def
      vcf_version_def get_full_name_line_def full_name_kw_def get_name_line_def name_kw_def
      name_parts_def get_categories_def category_def category_separator_def contact_end_def
      sorted_get_sorted_phones mset_get_sorted_phones)

theorem to_vcf_layout_witness:
  "to_vcf sorted_enum ''3.0'' False
     (VCFContact\<lparr> phones := {|\<lparr>number = ''2'', phone_type = ''CELL''\<rparr>,
                                \<lparr>number = ''10'', phone_type = ''CELL''\<rparr>|},
                    other_info := {|''NOTE:x''|},
                    categories := {|''B'', ''A''|}, surname := ''Doe'', first_name := ''Jane'' \<rparr>)
   = Inr (py_join [nl] [''BEGIN:VCARD'', ''VERSION:3.0'', ''FN:Jane Doe'', ''N:Doe;Jane;;;'',
            ''CATEGORIES:A,B'', ''TEL;TYPE=CELL:10'', ''TEL;TYPE=CELL:2'', ''END:VCARD'', [], []])"
proof -
  let ?c = "VCFContact\<lparr> phones := {|\<lparr>number = ''2'', phone_type = ''CELL''\<rparr>,
                                \<lparr>number = ''10'', phone_type = ''CELL''\<rparr>|},
                    other_info := {|''NOTE:x''|},
                    categories := {|''B'', ''A''|}, surname := ''Doe'', first_name := ''Jane'' \<rparr>"
  have ne: "\<not> is_empty ?c" by (simp add: is_empty_def)
  have ph: "get_sorted_phones ?c = [''TEL;TYPE=CELL:10'', ''TEL;TYPE=CELL:2'']"
    by (simp add: get_sorted_phones_def phone_str_def phone_line_def type_line_def)
  have en: "sorted_enum {|''B'', ''A''|} = [''A'', ''B'']"
    by (simp add: sorted_enum_def)
  have fu: "full_name ?c = ''Jane Doe''"
    by (simp add: full_name_def full_name_parts_def VCFContact_def strip_nonempty_def
        is_space_def)
  have "categories ?c = {|''B'', ''A''|}" "categories ?c \<noteq> {||}" by simp_all
  with to_vcf_layout [OF ne, of sorted_enum "''3.0''" False] ph en fu
  show ?thesis by (simp add: VCFContact_def)
qed

section \<open>The set of phones\<close>

lemma from_vcf_line_is_phone_line:
  assumes "from_vcf_line line pt = Inr p" shows "is_phone_line line"
proof -
  have "re_match phone_pattern line \<noteq> None"
    using assms by (auto simp: from_vcf_line_def split: option.splits)
  then have "startswith line (phone_line @ type_line)"
    unfolding phone_pattern_def re_match_lits by (auto split: if_splits)
  then obtain rest where "line = (phone_line @ type_line) @ rest"
    using startswithD by blast
  then show ?thesis
    by (simp add: is_phone_line_def phone_kw_def phone_line_def)
qed

lemma from_vcf_line_default_type:
  "from_vcf_line line False = Inr p \<Longrightarrow> phone_type p = ''CELL''"
  by (auto simp: from_vcf_line_def default_type_def split: option.splits list.splits)

lemma add_line_phone_ok:
  "from_vcf_line line False = Inr p \<Longrightarrow> add_line c line = c\<lparr> phones := finsert p (phones c) \<rparr>"
  using from_vcf_line_is_phone_line [of line False p]
  by (simp add: add_line_phone add_phone_def)

lemma phones_add_line:
  "phones (add_line c line) = phones c
   \<or> (\<exists>p. from_vcf_line line False = Inr p \<and> phones (add_line c line) = finsert p (phones c))"
  by (auto simp: add_line_def add_name_def add_phone_def add_category_def
      split: option.splits list.splits sum.splits)

lemma phones_foldl_mono: "p |\<in>| phones c \<Longrightarrow> p |\<in>| phones (foldl add_line c ls)"
proof (induction ls arbitrary: c)
  case Nil
  then show ?case by simp
next
  case (Cons l ls)
  from phones_add_line [of c l] Cons.prems have "p |\<in>| phones (add_line c l)" by auto
  then show ?case using Cons.IH by simp
qed

lemma phones_foldl_mem:
  assumes "from_vcf_line line False = Inr p" and "line \<in> set ls"
  shows "p |\<in>| phones (foldl add_line c ls)"
  using assms(2)
proof (induction ls arbitrary: c)
  case Nil
  then show ?case by simp
next
  case (Cons l ls)
  show ?case
  proof (cases "l = line")
    case True
    then have "p |\<in>| phones (add_line c l)"
      using add_line_phone_ok [OF assms(1), of c] by simp
    then show ?thesis using phones_foldl_mono by simp
  next
    case False
    then show ?thesis using Cons by simp
  qed
qed

lemma phones_foldl_cell:
  assumes "\<forall>p \<in> fset (phones c). phone_type p = ''CELL''"
  shows "\<forall>p \<in> fset (phones (foldl add_line c ls)). phone_type p = ''CELL''"
  using assms
proof (induction ls arbitrary: c)
  case Nil
  then show ?case by simp
next
  case (Cons l ls)
  have "\<forall>p \<in> fset (phones (add_line c l)). phone_type p = ''CELL''"
    using phones_add_line [of c l] Cons.prems from_vcf_line_default_type by auto
  then show ?case using Cons.IH by simp
qed

lemma phone_str_inj_cell:
  "phone_type p = ''CELL'' \<Longrightarrow> phone_type q = ''CELL'' \<Longrightarrow> phone_str p = phone_str q \<Longrightarrow> p = q"
  by (cases p, cases q) (simp add: phone_str_def)

lemma count_sorted_phones_one:
  assumes "\<forall>q \<in> fset (phones c). phone_type q = ''CELL''" and "p |\<in>| phones c"
  shows "count_list (get_sorted_phones c) (phone_str p) = 1"
proof -
  let ?A = "fset (phones c)"
  have "phone_str -` {phone_str p} \<inter> ?A = {p}"
    using assms phone_str_inj_cell by auto
  then have "count (image_mset phone_str (mset_set ?A)) (phone_str p) = 1"
    using assms(2) by (simp add: count_image_mset)
  then show ?thesis
    by (simp add: count_mset [symmetric] mset_get_sorted_phones)
qed

lemma phone_eq_iff: "phone_eq p q \<longleftrightarrow> p = q"
  by (cases p, cases q) (simp add: phone_eq_def)

lemma other_info_add_line:
  "other_info (add_line c line) = other_info c
   \<or> (\<not> is_phone_line line \<and> other_info (add_line c line) = finsert line (other_info c))"
  by (auto simp: add_line_def add_name_def add_phone_def add_category_def
      split: option.splits list.splits sum.splits)

lemma other_info_foldl_not_phone:
  assumes "\<forall>l \<in> fset (other_info c). \<not> is_phone_line l"
  shows "\<forall>l \<in> fset (other_info (foldl add_line c ls)). \<not> is_phone_line l"
  using assms
proof (induction ls arbitrary: c)
  case Nil
  then show ?case by simp
next
  case (Cons x ls)
  have "\<forall>l \<in> fset (other_info (add_line c x)). \<not> is_phone_line l"
    using other_info_add_line [of c x] Cons.prems by auto
  then show ?case using Cons.IH by simp
qed



section \<open>Cleaning a cleaned file\<close>

lemma lazy_dot_semi_short:
  assumes fail: "\<And>r. nl \<notin> set r \<Longrightarrow> count_list r CHR '';'' < k \<Longrightarrow> re_match p r = None"
  shows "nl \<notin> set s \<Longrightarrow> count_list s CHR '';'' \<le> k \<Longrightarrow>
           lazy_star Dot (Lit CHR '';'' # p) acc s = None"
proof (induction "length s" arbitrary: s acc rule: less_induct)
  case less
  show ?case
  proof (cases "CHR '';'' \<in> set s")
    case False
    have "set (takeWhile (\<lambda>c. c \<noteq> nl) s) \<subseteq> set s"
      by (rule set_takeWhileD [THEN conjunct1, THEN subsetI])
    with False have "CHR '';'' \<notin> set (takeWhile (\<lambda>c. c \<noteq> nl) s)" by blast
    then show ?thesis by (rule lazy_dot_semi_none)
  next
    case True
    then have pos: "0 < count_list s CHR '';''"
      using count_list_0_iff [of s "CHR '';''"] by simp
    from count_list_pos_decomp [OF pos]
    obtain a r where s: "s = a @ CHR '';'' # r" and a: "CHR '';'' \<notin> set a"
      and c: "count_list s CHR '';'' = Suc (count_list r CHR '';'')"
      by blast
    have nla: "nl \<notin> set a" and nlr: "nl \<notin> set r" using less.prems(1) s by auto
    have lt: "count_list r CHR '';'' < k" using c less.prems(2) by linarith
    have len: "length r < length s" unfolding s by simp
    have "re_match p r = None" by (rule fail [OF nlr lt])
    then have "lazy_star Dot (Lit CHR '';'' # p) acc s
        = lazy_star Dot (Lit CHR '';'' # p) (acc @ a @ '';'') r"
      unfolding s by (rule lazy_dot_semi_retry [OF a nla])
    also have "\<dots> = None"
      by (rule less.hyps [OF len nlr]) (use lt in simp)
    finally show ?thesis .
  qed
qed

lemma re_match_name_pattern_short:
  assumes "nl \<notin> set body" and "count_list body CHR '';'' < 4"
  shows "re_match name_pattern (''N:'' @ body) = None"
proof -
  let ?semi = "Lit CHR '';''" and ?f = "Lazy_Star Dot"
  have 1: "re_match [?f, ?semi, ?f] r = None"
    if "nl \<notin> set r" "count_list r CHR '';'' < 1" for r
    using lazy_dot_semi_short [where k = 0 and p = "[?f]" and s = r and acc = "[]"] that by simp
  have 2: "re_match [?f, ?semi, ?f, ?semi, ?f] r = None"
    if "nl \<notin> set r" "count_list r CHR '';'' < 2" for r
    using lazy_dot_semi_short [where k = 1 and p = "[?f, ?semi, ?f]" and s = r and acc = "[]"]
      1 that by simp
  have 3: "re_match [?f, ?semi, ?f, ?semi, ?f, ?semi, ?f] r = None"
    if "nl \<notin> set r" "count_list r CHR '';'' < 3" for r
    using lazy_dot_semi_short [where k = 2 and p = "[?f, ?semi, ?f, ?semi, ?f]" and s = r
        and acc = "[]"] 2 that by simp
  have 4: "re_match [?f, ?semi, ?f, ?semi, ?f, ?semi, ?f, ?semi, ?f] r = None"
    if "nl \<notin> set r" "count_list r CHR '';'' < 4" for r
    using lazy_dot_semi_short [where k = 3 and p = "[?f, ?semi, ?f, ?semi, ?f, ?semi, ?f]"
        and s = r and acc = "[]"] 3 that by simp
  show ?thesis
    unfolding name_pattern_def name_kw_def re_match_lits using 4 [OF assms] by simp
qed

lemma py_split_pieces:
  "t \<in> set (py_split sep s) \<Longrightarrow> sep \<notin> set t \<and> set t \<subseteq> set s"
proof (induction s arbitrary: t)
  case Nil
  then show ?case by simp
next
  case (Cons x s)
  obtain w ws where r: "py_split sep s = w # ws"
    using py_split_nonempty [of sep s] by (cases "py_split sep s") auto
  have w: "sep \<notin> set w \<and> set w \<subseteq> set s" using Cons.IH [of w] r by simp
  have ws: "\<And>u. u \<in> set ws \<Longrightarrow> sep \<notin> set u \<and> set u \<subseteq> set s"
    using Cons.IH r by simp
  show ?case
  proof (cases "x = sep")
    case True
    then have "t = [] \<or> t = w \<or> t \<in> set ws" using Cons.prems r by (auto simp: Let_def)
    then show ?thesis using w ws by auto
  next
    case False
    then have "t = x # w \<or> t \<in> set ws" using Cons.prems r by (auto simp: Let_def)
    then show ?thesis using w ws False by auto
  qed
qed

lemma py_join_Cons: "ts \<noteq> [] \<Longrightarrow> py_join sep (t # ts) = t @ sep @ py_join sep ts"
  by (cases ts) auto

lemma py_split_join:
  "ts \<noteq> [] \<Longrightarrow> \<forall>t \<in> set ts. sep \<notin> set t \<Longrightarrow> py_split sep (py_join [sep] ts) = ts"
proof (induction ts)
  case Nil
  then show ?case by simp
next
  case (Cons t ts)
  show ?case
  proof (cases "ts = []")
    case True
    have "sep \<notin> set u \<Longrightarrow> py_split sep u = [u]" for u
      by (induction u) (auto simp: Let_def)
    then show ?thesis using True Cons.prems by simp
  next
    case False
    then show ?thesis
      using Cons by (simp add: py_join_Cons py_split_first)
  qed
qed

lemma py_join_empty: "py_join [sep] ts = [] \<longleftrightarrow> ts = [] \<or> ts = [[]]"
proof (cases ts)
  case Nil
  then show ?thesis by simp
next
  case (Cons t us)
  then show ?thesis by (cases us) auto
qed

lemma py_join_snoc_empty:
  "py_join [sep] (xs @ [[]]) = concat (map (\<lambda>l. l @ [sep]) xs)"
proof (induction xs)
  case Nil
  then show ?case by simp
next
  case (Cons x xs)
  then show ?case by (simp add: py_join_Cons)
qed

lemma py_split_unlines:
  "\<forall>l \<in> set ls. sep \<notin> set l \<Longrightarrow>
     py_split sep (concat (map (\<lambda>l. l @ [sep]) ls)) = ls @ [[]]"
  by (induction ls) (simp_all add: py_split_first)

lemma py_split_nl_free: "l \<in> set (py_split nl content) \<Longrightarrow> nl \<notin> set l"
  using py_split_pieces by blast

lemma name_body_decomp:
  assumes "4 \<le> count_list body CHR '';''"
  shows "\<exists>a b c d rest. body = a @ '';'' @ b @ '';'' @ c @ '';'' @ d @ '';'' @ rest
           \<and> CHR '';'' \<notin> set (a @ b @ c @ d)"
proof -
  have p1: "0 < count_list body CHR '';''" using assms by simp
  from count_list_pos_decomp [OF p1]
  obtain a r1 where 1: "body = a @ CHR '';'' # r1" "CHR '';'' \<notin> set a"
      "count_list body CHR '';'' = Suc (count_list r1 CHR '';'')" by blast
  have p2: "0 < count_list r1 CHR '';''" using assms 1(3) by simp
  from count_list_pos_decomp [OF p2]
  obtain b r2 where 2: "r1 = b @ CHR '';'' # r2" "CHR '';'' \<notin> set b"
      "count_list r1 CHR '';'' = Suc (count_list r2 CHR '';'')" by blast
  have p3: "0 < count_list r2 CHR '';''" using assms 1(3) 2(3) by simp
  from count_list_pos_decomp [OF p3]
  obtain c r3 where 3: "r2 = c @ CHR '';'' # r3" "CHR '';'' \<notin> set c"
      "count_list r2 CHR '';'' = Suc (count_list r3 CHR '';'')" by blast
  have p4: "0 < count_list r3 CHR '';''" using assms 1(3) 2(3) 3(3) by simp
  from count_list_pos_decomp [OF p4]
  obtain d rest where 4: "r3 = d @ CHR '';'' # rest" "CHR '';'' \<notin> set d" by blast
  have "body = a @ '';'' @ b @ '';'' @ c @ '';'' @ d @ '';'' @ rest"
    using 1(1) 2(1) 3(1) 4(1) by simp
  moreover have "CHR '';'' \<notin> set (a @ b @ c @ d)"
    using 1(2) 2(2) 3(2) 4(2) by simp
  ultimately show ?thesis by blast
qed

lemma parsed_ok_add_name:
  assumes "parsed_ok k" and "nl \<notin> set line" and "is_name_line line"
  shows "parsed_ok (add_name k line)"
proof -
  obtain body where line: "line = ''N:'' @ body"
    using assms(3) startswithD unfolding is_name_line_def name_kw_def by blast
  have nlb: "nl \<notin> set body" using assms(2) line by simp
  show ?thesis
  proof (cases "4 \<le> count_list body CHR '';''")
    case False
    then have "re_match name_pattern line = None"
      unfolding line using re_match_name_pattern_short [OF nlb] by simp
    then show ?thesis using assms(1) by (simp add: add_name_def)
  next
    case True
    from name_body_decomp [OF True]
    obtain a b c d rest where body: "body = a @ '';'' @ b @ '';'' @ c @ '';'' @ d @ '';'' @ rest"
      and semi: "CHR '';'' \<notin> set (a @ b @ c @ d)" by blast
    have nonl: "nl \<notin> set (a @ b @ c @ d)" using nlb body by simp
    have "add_name k line =
        k\<lparr> surname := a, first_name := b, middle_name := c, prefix := d, suffix := [] \<rparr>"
      unfolding line body by (rule add_name_fields [OF semi nonl])
    then show ?thesis using assms(1) semi nonl by (simp add: parsed_ok_def)
  qed
qed

lemma from_vcf_line_number_keep:
  "from_vcf_line line b = Inr p \<Longrightarrow> \<forall>ch \<in> set (number p). keep_char ch"
  by (auto simp: from_vcf_line_def strip_number_def split: option.splits list.splits)

lemma parsed_ok_add_phone: "parsed_ok k \<Longrightarrow> parsed_ok (add_phone k line)"
  using from_vcf_line_number_keep [of line False] from_vcf_line_default_type [of line]
  by (auto simp: add_phone_def parsed_ok_def split: sum.splits)

lemma parsed_ok_add_category:
  assumes "parsed_ok k" shows "parsed_ok (add_category k line)"
proof (cases "re_match category_pattern line")
  case None
  then show ?thesis using assms by (simp add: add_category_def)
next
  case (Some gs)
  then have gs: "gs = [takeWhile (\<lambda>c. c \<noteq> nl) (drop (length category) line)]"
    unfolding re_match_category_pattern by (auto split: if_splits)
  have "CHR '','' \<notin> set t \<and> nl \<notin> set t"
    if "t \<in> set (py_split CHR '','' (takeWhile (\<lambda>c. c \<noteq> nl) (drop (length category) line)))" for t
  proof -
    from py_split_pieces [OF that]
    have "CHR '','' \<notin> set t" and sub: "set t \<subseteq> set (takeWhile (\<lambda>c. c \<noteq> nl) (drop (length category) line))"
      by simp_all
    moreover have "nl \<notin> set (takeWhile (\<lambda>c. c \<noteq> nl) (drop (length category) line))"
      using set_takeWhileD by fastforce
    ultimately show ?thesis by blast
  qed
  then show ?thesis
    using assms Some gs
    by (auto simp: add_category_def parsed_ok_def category_separator_def fset_of_list.rep_eq)
qed

lemma parsed_ok_add_line:
  assumes "parsed_ok k" and "nl \<notin> set line"
  shows "parsed_ok (add_line k line)"
proof -
  have o: "parsed_ok (k\<lparr> other_info := finsert line (other_info k) \<rparr>)"
    using assms(1) by (simp add: parsed_ok_def)
  have n: "is_name_line line \<Longrightarrow> parsed_ok (add_name k line)"
    by (rule parsed_ok_add_name [OF assms])
  have p: "parsed_ok (add_phone k line)"
    by (rule parsed_ok_add_phone [OF assms(1)])
  have c: "parsed_ok (add_category k line)"
    by (rule parsed_ok_add_category [OF assms(1)])
  show ?thesis
    unfolding add_line_def using assms(1) o n p c by presburger
qed

lemma parsed_ok_foldl:
  "parsed_ok k \<Longrightarrow> \<forall>l \<in> set ls. nl \<notin> set l \<Longrightarrow> parsed_ok (foldl add_line k ls)"
  by (induction ls arbitrary: k) (simp_all add: parsed_ok_add_line)

lemma parsed_ok_VCFContact: "parsed_ok VCFContact"
  by (simp add: parsed_ok_def VCFContact_def)

lemma split_contacts_lines:
  assumes "\<forall>g \<in> set parsed. \<forall>l \<in> set g. P l" and "\<forall>l \<in> set current. P l"
    and "\<forall>l \<in> set ls. P l"
  shows "\<forall>g \<in> set (split_contacts parsed current ls). \<forall>l \<in> set g. P l"
  using assms
proof (induction ls arbitrary: parsed current)
  case Nil
  then show ?case by simp
next
  case (Cons x ls)
  have 0: "\<forall>l \<in> set []. P l" by simp
  have 1: "\<forall>g \<in> set (parsed @ [current]). \<forall>l \<in> set g. P l"
    using Cons.prems(1,2) by simp
  have 2: "\<forall>l \<in> set (current @ [x]). P l" using Cons.prems(2,3) by simp
  have 3: "\<forall>l \<in> set ls. P l" using Cons.prems(3) by simp
  show ?case
    using Cons.IH [OF 1 0 3] Cons.IH [OF Cons.prems(1,2) 3] Cons.IH [OF Cons.prems(1) 2 3]
    by (simp del: set_append)
qed

lemma parsed_ok_parse_vcf_file:
  "c \<in> set (parse_vcf_file content) \<Longrightarrow> parsed_ok c"
proof -
  assume "c \<in> set (parse_vcf_file content)"
  then obtain g where g: "g \<in> set (split_contacts [] [] (py_split nl content))"
    and c: "c = build_contact g"
    by (auto simp: parse_vcf_file_def parse_lines_def)
  have "\<forall>g \<in> set (split_contacts [] [] (py_split nl content)). \<forall>l \<in> set g. nl \<notin> set l"
    by (rule split_contacts_lines) (simp_all add: py_split_nl_free)
  then have "\<forall>l \<in> set g. nl \<notin> set l" using g by blast
  then show ?thesis
    unfolding c build_contact_def by (rule parsed_ok_foldl [OF parsed_ok_VCFContact])
qed

lemma vcf_list_body:
  "vcf_list enum version False c
     = (contact_begin # get_version version # contact_body enum c @ [contact_end, []]) @ [[]]"
  by (simp add: vcf_list_def contact_body_def)

lemma to_vcf_inner_unlines:
  "to_vcf_inner enum version False c
     = concat (map (\<lambda>l. l @ [nl])
         (contact_begin # get_version version # contact_body enum c @ [contact_end, []]))"
  unfolding to_vcf_inner_def vcf_list_body by (rule py_join_snoc_empty)

lemma set_py_join: "set (py_join sep ts) \<subseteq> set sep \<union> \<Union> (set ` set ts)"
proof (induction ts)
  case Nil
  then show ?case by simp
next
  case (Cons t ts)
  then show ?case by (cases "ts = []") (auto simp: py_join_Cons)
qed

lemma keep_char_not_nl: "keep_char ch \<Longrightarrow> ch \<noteq> nl"
  by (auto simp: keep_char_def nl_def)

lemma phone_str_nl_free:
  assumes "phone_type q = ''CELL''" and "\<forall>ch \<in> set (number q). keep_char ch"
  shows "nl \<notin> set (phone_str q)"
proof -
  have "nl \<notin> set (number q)" using assms(2) keep_char_not_nl by blast
  then show ?thesis
    using assms(1) by (simp add: phone_str_def phone_line_def type_line_def nl_def)
qed

lemma full_name_nl_free:
  assumes "parsed_ok c" shows "nl \<notin> set (full_name c)"
proof -
  have parts: "\<forall>t \<in> set (full_name_parts c). nl \<notin> set t"
    using assms by (simp add: parsed_ok_def full_name_parts_def)
  have "set (full_name c) \<subseteq> set '' '' \<union> \<Union> (set ` set (filter strip_nonempty (full_name_parts c)))"
    unfolding full_name_def by (rule set_py_join)
  then show ?thesis using parts by (auto simp: nl_def)
qed

lemma name_line_nl_free:
  assumes "parsed_ok c" shows "nl \<notin> set (get_name_line c)"
  using assms by (simp add: parsed_ok_def get_name_line_def name_parts_def name_kw_def nl_def)

lemma categories_line_nl_free:
  assumes "parsed_ok c" and "fset_of_list (enum (categories c)) = categories c"
  shows "nl \<notin> set (category @ py_join [category_separator] (enum (categories c)))"
proof -
  have "set (enum (categories c)) = fset (categories c)"
    using assms(2) by (metis fset_of_list.rep_eq)
  then have toks: "\<forall>t \<in> set (enum (categories c)). nl \<notin> set t"
    using assms(1) by (simp add: parsed_ok_def)
  have "set (py_join [category_separator] (enum (categories c)))
      \<subseteq> set [category_separator] \<union> \<Union> (set ` set (enum (categories c)))"
    by (rule set_py_join)
  then have "nl \<notin> set (py_join [category_separator] (enum (categories c)))"
    using toks by (auto simp: category_separator_def nl_def)
  then show ?thesis by (simp add: category_def nl_def)
qed

lemma contact_body_nl_free:
  assumes "parsed_ok c" and "fset_of_list (enum (categories c)) = categories c"
  shows "\<forall>l \<in> set (contact_body enum c). nl \<notin> set l"
proof -
  have fn: "nl \<notin> set (get_full_name_line c)"
    using full_name_nl_free [OF assms(1)]
    by (simp add: get_full_name_line_def full_name_kw_def nl_def)
  have n: "nl \<notin> set (get_name_line c)" by (rule name_line_nl_free [OF assms(1)])
  have cat: "\<forall>l \<in> set (case get_categories enum c of None \<Rightarrow> []
      | Some cats \<Rightarrow> if cats \<noteq> [] then [cats] else []). nl \<notin> set l"
    using categories_line_nl_free [of c enum] assms by (simp add: get_categories_def)
  have ph: "\<forall>l \<in> set (get_sorted_phones c). nl \<notin> set l"
    unfolding set_get_sorted_phones using assms(1) phone_str_nl_free
    by (auto simp: parsed_ok_def)
  show ?thesis
    unfolding contact_body_def using fn n cat ph by (auto split: option.splits if_splits)
qed

lemma split_contacts_plain:
  "\<forall>l \<in> set xs. \<not> is_service_line l \<Longrightarrow>
     split_contacts parsed current (xs @ rest) = split_contacts parsed (current @ xs) rest"
proof (induction xs arbitrary: current)
  case Nil
  then show ?case by simp
next
  case (Cons x xs)
  have "\<not> is_service_line x" "\<not> is_end_of_contact x"
    using Cons.prems service_end by auto
  then show ?case using Cons.IH [of "current @ [x]"] Cons.prems by simp
qed

lemma contact_body_not_service:
  "\<forall>l \<in> set (contact_body enum c). \<not> is_service_line l"
proof -
  have fn: "\<not> is_service_line (get_full_name_line c)"
    by (simp add: get_full_name_line_def full_name_kw_def is_service_line_def
        is_start_of_contact_def is_end_of_contact_def is_version_line_def contact_begin_def
        contact_end_def vcf_version_def)
  have n: "\<not> is_service_line (get_name_line c)"
    by (rule not_service_name) (simp add: get_name_line_def is_name_line_def)
  have cat: "\<not> is_service_line (category @ v)" for v
    by (rule not_service_category) (simp add: is_category_line_def)
  have ph: "\<not> is_service_line (phone_str q)" for q
    by (rule not_service_phone) (simp add: is_phone_line_def phone_str_def phone_kw_def phone_line_def)
  show ?thesis
    unfolding contact_body_def using fn n cat ph
    by (auto simp: get_categories_def set_get_sorted_phones split: option.splits if_splits)
qed

lemma split_contacts_block:
  "split_contacts parsed current
     ((contact_begin # get_version version # contact_body enum c @ [contact_end, []]) @ rest)
   = split_contacts (parsed @ [current @ contact_body enum c]) [[]] rest"
proof -
  have b: "is_service_line contact_begin" "\<not> is_end_of_contact contact_begin"
    by (simp_all add: is_service_line_def is_start_of_contact_def is_end_of_contact_def
        contact_begin_def contact_end_def)
  have v: "is_service_line (get_version version)" "\<not> is_end_of_contact (get_version version)"
    by (simp_all add: is_service_line_def is_version_line_def get_version_def
        is_end_of_contact_def contact_end_def vcf_version_def)
  have e: "is_end_of_contact contact_end" by (simp add: is_end_of_contact_def)
  have m: "\<not> is_service_line []" "\<not> is_end_of_contact []"
    by (simp_all add: is_service_line_def is_start_of_contact_def is_end_of_contact_def
        is_version_line_def contact_begin_def contact_end_def vcf_version_def)
  have "split_contacts parsed current
     ((contact_begin # get_version version # contact_body enum c @ [contact_end, []]) @ rest)
     = split_contacts parsed current (contact_body enum c @ (contact_end # [] # rest))"
    using b v by simp
  also have "\<dots> = split_contacts parsed (current @ contact_body enum c) (contact_end # [] # rest)"
    by (rule split_contacts_plain [OF contact_body_not_service])
  also have "\<dots> = split_contacts (parsed @ [current @ contact_body enum c]) [[]] rest"
    using e m by simp
  finally show ?thesis .
qed

lemma split_contacts_blocks:
  "split_contacts parsed current
     (concat (map (\<lambda>c. contact_begin # get_version version # contact_body enum c
                       @ [contact_end, []]) (c # cs)) @ [[]])
   = parsed @ (current @ contact_body enum c) # map (\<lambda>c. [] # contact_body enum c) cs"
proof (induction cs arbitrary: parsed current c)
  case Nil
  have m: "\<not> is_service_line []" "\<not> is_end_of_contact []"
    by (simp_all add: is_service_line_def is_start_of_contact_def is_end_of_contact_def
        is_version_line_def contact_begin_def contact_end_def vcf_version_def)
  have "split_contacts parsed current
      ((contact_begin # get_version version # contact_body enum c @ [contact_end, []]) @ [[]])
      = split_contacts (parsed @ [current @ contact_body enum c]) [[]] [[]]"
    by (rule split_contacts_block)
  then show ?case using m by simp
next
  case (Cons d cs)
  have "split_contacts parsed current
      ((contact_begin # get_version version # contact_body enum c @ [contact_end, []])
        @ (concat (map (\<lambda>c. contact_begin # get_version version # contact_body enum c
                       @ [contact_end, []]) (d # cs)) @ [[]]))
      = split_contacts (parsed @ [current @ contact_body enum c]) [[]]
          (concat (map (\<lambda>c. contact_begin # get_version version # contact_body enum c
                       @ [contact_end, []]) (d # cs)) @ [[]])"
    by (rule split_contacts_block)
  also have "\<dots> = (parsed @ [current @ contact_body enum c])
      @ ([[]] @ contact_body enum d) # map (\<lambda>c. [] # contact_body enum c) cs"
    by (rule Cons.IH)
  finally show ?case by simp
qed

lemma word_CELL: "\<forall>c \<in> set ''CELL''. in_class Word c"
  by simp

lemma from_vcf_line_phone_str:
  assumes "phone_type q = ''CELL''" and "number q \<noteq> []"
    and "\<forall>ch \<in> set (number q). keep_char ch"
  shows "from_vcf_line (phone_str q) False = Inr q"
proof -
  have nonl: "nl \<notin> set (number q)" using assms(3) keep_char_not_nl by blast
  have "from_vcf_line (''TEL;TYPE='' @ ''CELL'' @ '':'' @ number q) False
      = Inr \<lparr> number = strip_number (number q), phone_type = ''CELL'' \<rparr>"
    using from_vcf_line_groups [OF _ word_CELL assms(2) nonl, of False] by simp
  moreover have "strip_number (number q) = number q"
    using assms(3) by (simp add: strip_number_def)
  moreover have "phone_str q = ''TEL;TYPE='' @ ''CELL'' @ '':'' @ number q"
    using assms(1) by (simp add: phone_str_def phone_line_def type_line_def)
  ultimately show ?thesis using assms(1) by (cases q) simp
qed

lemma foldl_add_line_phones:
  assumes good: "\<forall>q \<in> fset P. phone_type q = ''CELL'' \<and> number q \<noteq> []
      \<and> (\<forall>ch \<in> set (number q). keep_char ch)"
  shows "\<forall>x \<in> set xs. x \<in> phone_str ` fset P \<Longrightarrow>
     foldl add_line k xs = k\<lparr> phones := phones k |\<union>| ffilter (\<lambda>q. phone_str q \<in> set xs) P \<rparr>"
proof (induction xs arbitrary: k)
  case Nil
  have "ffilter (\<lambda>q. False) P = {||}" by auto
  then show ?case by simp
next
  case (Cons x xs)
  from Cons.prems obtain q where q: "q \<in> fset P" and x: "x = phone_str q" by auto
  have gq: "phone_type q = ''CELL''" "number q \<noteq> []" "\<forall>ch \<in> set (number q). keep_char ch"
    using good q by auto
  have step: "add_line k x = k\<lparr> phones := finsert q (phones k) \<rparr>"
    unfolding x by (rule add_line_phone_ok [OF from_vcf_line_phone_str [OF gq]])
  have rest: "\<forall>y \<in> set xs. y \<in> phone_str ` fset P" using Cons.prems by simp
  have inj: "r \<in> fset P \<Longrightarrow> phone_str r = phone_str q \<Longrightarrow> r = q" for r
    using good gq(1) phone_str_inj_cell by blast
  have "finsert q (ffilter (\<lambda>r. phone_str r \<in> set xs) P)
      = ffilter (\<lambda>r. phone_str r \<in> set (x # xs)) P"
    using q inj unfolding x by auto
  then have "finsert q (phones k) |\<union>| ffilter (\<lambda>r. phone_str r \<in> set xs) P
      = phones k |\<union>| ffilter (\<lambda>r. phone_str r \<in> set (x # xs)) P"
    by auto
  then show ?case
    using Cons.IH [OF rest, of "add_line k x"] step by simp
qed

lemma foldl_add_line_sorted_phones:
  assumes "\<forall>q \<in> fset (phones c). phone_type q = ''CELL'' \<and> number q \<noteq> []
      \<and> (\<forall>ch \<in> set (number q). keep_char ch)"
  shows "foldl add_line k (get_sorted_phones c) = k\<lparr> phones := phones k |\<union>| phones c \<rparr>"
proof -
  have mem: "\<forall>x \<in> set (get_sorted_phones c). x \<in> phone_str ` fset (phones c)"
    by (simp add: set_get_sorted_phones)
  have "ffilter (\<lambda>q. phone_str q \<in> set (get_sorted_phones c)) (phones c) = phones c"
    by (auto simp: set_get_sorted_phones)
  then show ?thesis
    using foldl_add_line_phones [OF assms mem, of k] by simp
qed

lemma add_line_full_name: "add_line k (get_full_name_line c) = k"
  by (simp add: get_full_name_line_def full_name_kw_def add_line_def is_service_line_def
      is_start_of_contact_def is_end_of_contact_def is_version_line_def is_name_line_def
      is_phone_line_def is_category_line_def is_full_name_line_def contact_begin_def
      contact_end_def vcf_version_def name_kw_def phone_kw_def category_def)

lemma add_line_name_line:
  assumes "parsed_ok c"
  shows "add_line k (get_name_line c)
           = k\<lparr> surname := surname c, first_name := first_name c,
                middle_name := middle_name c, prefix := prefix c, suffix := [] \<rparr>"
proof -
  have semi: "CHR '';'' \<notin> set (surname c @ first_name c @ middle_name c @ prefix c)"
    and nonl: "nl \<notin> set (surname c @ first_name c @ middle_name c @ prefix c)"
    using assms by (simp_all add: parsed_ok_def)
  have sf: "suffix c = []" using assms by (simp add: parsed_ok_def)
  have line: "get_name_line c = ''N:'' @ surname c @ '';'' @ first_name c @ '';''
      @ middle_name c @ '';'' @ prefix c @ '';'' @ []"
    by (simp add: get_name_line_def name_parts_def name_kw_def sf)
  have "is_name_line (get_name_line c)"
    by (simp add: get_name_line_def is_name_line_def)
  then have "add_line k (get_name_line c) = add_name k (get_name_line c)"
    by (rule add_line_name)
  also have "\<dots> = k\<lparr> surname := surname c, first_name := first_name c,
                middle_name := middle_name c, prefix := prefix c, suffix := [] \<rparr>"
    unfolding line by (rule add_name_fields [OF semi nonl])
  finally show ?thesis .
qed

lemma enum_set:
  assumes "fset_of_list ts = S" shows "set ts = fset S"
  unfolding assms [symmetric] by (simp add: fset_of_list.rep_eq)

lemma enum_nonempty:
  assumes "fset_of_list ts = S" and "S \<noteq> {||}" shows "ts \<noteq> []"
proof
  assume "ts = []"
  then have "fset_of_list ts = {||}" by simp
  then show False using assms by simp
qed

lemma enum_not_blank:
  assumes "fset_of_list ts = S" and "S \<noteq> {|[]|}" shows "ts \<noteq> [[]]"
proof
  assume "ts = [[]]"
  then have "fset_of_list ts = {|[]|}" by simp
  then show False using assms by simp
qed

lemma foldl_add_line_categories:
  assumes ok: "parsed_ok c" and en: "fset_of_list (enum (categories c)) = categories c"
    and ne: "categories c \<noteq> {|[]|}"
  shows "foldl add_line k (case get_categories enum c of None \<Rightarrow> []
           | Some cats \<Rightarrow> if cats \<noteq> [] then [cats] else [])
         = k\<lparr> categories := categories k |\<union>| categories c \<rparr>"
proof (cases "categories c = {||}")
  case True
  then show ?thesis by (simp add: get_categories_def)
next
  case False
  let ?ts = "enum (categories c)"
  let ?v = "py_join [CHR '',''] ?ts"
  have set_ts: "set ?ts = fset (categories c)" by (rule enum_set [OF en])
  have ts1: "?ts \<noteq> []" by (rule enum_nonempty [OF en False])
  have ts2: "?ts \<noteq> [[]]" by (rule enum_not_blank [OF en ne])
  have v: "?v \<noteq> []" using ts1 ts2 py_join_empty [of "CHR '',''" ?ts] by simp
  have nonl: "nl \<notin> set ?v"
    using categories_line_nl_free [of c enum] ok en
    by (simp add: category_def category_separator_def)
  have comma: "\<forall>t \<in> set ?ts. CHR '','' \<notin> set t"
    using ok set_ts by (simp add: parsed_ok_def)
  have split: "py_split CHR '','' ?v = ?ts"
    by (rule py_split_join [OF ts1 comma])
  have "is_category_line (''CATEGORIES:'' @ ?v)"
    by (simp add: is_category_line_def category_def)
  then have "add_line k (''CATEGORIES:'' @ ?v) = add_category k (''CATEGORIES:'' @ ?v)"
    by (rule add_line_category)
  also have "\<dots> = k\<lparr> categories := categories k |\<union>| fset_of_list (py_split CHR '','' ?v) \<rparr>"
    by (rule add_category_tokens [OF v nonl])
  also have "\<dots> = k\<lparr> categories := categories k |\<union>| categories c \<rparr>"
    unfolding split en ..
  finally have "add_line k (''CATEGORIES:'' @ ?v)
      = k\<lparr> categories := categories k |\<union>| categories c \<rparr>" .
  then show ?thesis
    using False by (simp add: get_categories_def category_def category_separator_def)
qed

lemma build_contact_body:
  assumes ok: "parsed_ok c" and en: "fset_of_list (enum (categories c)) = categories c"
    and ne: "categories c \<noteq> {|[]|}" and num: "\<forall>q \<in> fset (phones c). number q \<noteq> []"
  shows "foldl add_line (VCFContact\<lparr> other_info := X \<rparr>) (contact_body enum c)
           = c\<lparr> other_info := X \<rparr>"
proof -
  let ?k = "VCFContact\<lparr> other_info := X \<rparr>"
  let ?k2 = "?k\<lparr> surname := surname c, first_name := first_name c,
                middle_name := middle_name c, prefix := prefix c, suffix := [] \<rparr>"
  let ?k3 = "?k2\<lparr> categories := categories ?k2 |\<union>| categories c \<rparr>"
  have good: "\<forall>q \<in> fset (phones c). phone_type q = ''CELL'' \<and> number q \<noteq> []
      \<and> (\<forall>ch \<in> set (number q). keep_char ch)"
    using ok num by (simp add: parsed_ok_def)
  have "foldl add_line ?k (contact_body enum c)
      = foldl add_line (foldl add_line (add_line (add_line ?k (get_full_name_line c))
          (get_name_line c))
          (case get_categories enum c of None \<Rightarrow> []
           | Some cats \<Rightarrow> if cats \<noteq> [] then [cats] else []))
          (get_sorted_phones c)"
    by (simp add: contact_body_def)
  also have "\<dots> = foldl add_line (foldl add_line ?k2
          (case get_categories enum c of None \<Rightarrow> []
           | Some cats \<Rightarrow> if cats \<noteq> [] then [cats] else []))
          (get_sorted_phones c)"
    unfolding add_line_full_name add_line_name_line [OF ok] ..
  also have "\<dots> = foldl add_line ?k3 (get_sorted_phones c)"
    unfolding foldl_add_line_categories [where enum = enum and c = c, OF ok en ne] ..
  also have "\<dots> = ?k3\<lparr> phones := phones ?k3 |\<union>| phones c \<rparr>"
    by (rule foldl_add_line_sorted_phones [OF good])
  also have "\<dots> = c\<lparr> other_info := X \<rparr>"
    using ok by (cases c) (simp add: VCFContact_def parsed_ok_def)
  finally show ?thesis .
qed

lemma to_vcf_inner_other_info:
  "to_vcf_inner enum version False (c\<lparr> other_info := X \<rparr>) = to_vcf_inner enum version False c"
  by (simp add: to_vcf_inner_def vcf_list_def get_full_name_line_def full_name_def
      full_name_parts_def get_name_line_def name_parts_def get_categories_def
      get_sorted_phones_def)

lemma add_line_blank: "add_line VCFContact [] = VCFContact\<lparr> other_info := {|[]|} \<rparr>"
  by (simp add: add_line_def is_service_line_def is_start_of_contact_def is_end_of_contact_def
      is_version_line_def is_name_line_def is_phone_line_def is_category_line_def
      is_full_name_line_def contact_begin_def contact_end_def vcf_version_def name_kw_def
      phone_kw_def category_def full_name_kw_def VCFContact_def)

lemma concat_map_concat:
  "concat (map (\<lambda>c. concat (map f (g c))) cs) = concat (map f (concat (map g cs)))"
  by (induction cs) simp_all

lemma parse_vcf_file_written:
  assumes en: "\<forall>S. fset_of_list (enum S) = S"
    and good: "\<forall>c \<in> set cs. parsed_ok c \<and> (\<forall>q \<in> fset (phones c). number q \<noteq> [])
        \<and> categories c \<noteq> {|[]|}"
  shows "parse_vcf_file (concat (map (to_vcf_inner enum default_version False) cs))
           = (case cs of [] \<Rightarrow> []
              | c # ds \<Rightarrow> c\<lparr> other_info := {||} \<rparr> # map (\<lambda>d. d\<lparr> other_info := {|[]|} \<rparr>) ds)"
proof (cases cs)
  case Nil
  have "parse_vcf_file [] = []"
    by (simp add: parse_vcf_file_def parse_lines_def is_service_line_def
        is_start_of_contact_def is_end_of_contact_def is_version_line_def contact_begin_def
        contact_end_def vcf_version_def)
  then show ?thesis using Nil by simp
next
  case (Cons c ds)
  let ?blk = "\<lambda>c. contact_begin # get_version default_version # contact_body enum c
      @ [contact_end, []]"
  have body: "foldl add_line (VCFContact\<lparr> other_info := X \<rparr>) (contact_body enum d)
      = d\<lparr> other_info := X \<rparr>" if "d \<in> set cs" for d X
    using build_contact_body [where enum = enum and c = d and X = X] good en that by blast
  have nlfree: "\<forall>l \<in> set (?blk d). nl \<notin> set l" if "d \<in> set cs" for d
  proof -
    have "parsed_ok d" using good that by blast
    then have "\<forall>l \<in> set (contact_body enum d). nl \<notin> set l"
      using contact_body_nl_free [of d enum] en by blast
    then show ?thesis
      by (simp add: contact_begin_def get_version_def vcf_version_def default_version_def
          contact_end_def nl_def)
  qed
  have all: "\<forall>l \<in> set (concat (map ?blk cs)). nl \<notin> set l"
  proof
    fix l assume "l \<in> set (concat (map ?blk cs))"
    then obtain d where "d \<in> set cs" and "l \<in> set (?blk d)"
      unfolding set_concat set_map by blast
    then show "nl \<notin> set l" using nlfree by blast
  qed
  have "concat (map (to_vcf_inner enum default_version False) cs)
      = concat (map (\<lambda>l. l @ [nl]) (concat (map ?blk cs)))"
    unfolding to_vcf_inner_unlines by (rule concat_map_concat)
  then have lines: "py_split nl (concat (map (to_vcf_inner enum default_version False) cs))
      = concat (map ?blk cs) @ [[]]"
    using py_split_unlines [OF all] by simp
  have "parse_vcf_file (concat (map (to_vcf_inner enum default_version False) cs))
      = map build_contact (split_contacts [] [] (concat (map ?blk cs) @ [[]]))"
    by (simp only: parse_vcf_file_def parse_lines_def lines)
  also have "\<dots> = map build_contact
      ([] @ ([] @ contact_body enum c) # map (\<lambda>d. [] # contact_body enum d) ds)"
    unfolding Cons by (simp only: split_contacts_blocks)
  also have "\<dots> = map build_contact
      (contact_body enum c # map (\<lambda>d. [] # contact_body enum d) ds)"
    by simp
  also have "\<dots> = c\<lparr> other_info := {||} \<rparr> # map (\<lambda>d. d\<lparr> other_info := {|[]|} \<rparr>) ds"
  proof -
    have "VCFContact = VCFContact\<lparr> other_info := {||} \<rparr>" by (simp add: VCFContact_def)
    then have 1: "build_contact (contact_body enum c) = c\<lparr> other_info := {||} \<rparr>"
      unfolding build_contact_def using body [of c "{||}"] Cons by simp
    have 2: "build_contact ([] # contact_body enum d) = d\<lparr> other_info := {|[]|} \<rparr>"
      if "d \<in> set ds" for d
      unfolding build_contact_def using body [of d "{|[]|}"] that Cons
      by (simp add: add_line_blank)
    show ?thesis using 1 2 by simp
  qed
  finally show ?thesis using Cons by simp
qed

lemma is_empty_other_info: "is_empty (c\<lparr> other_info := X \<rparr>) = is_empty c"
  by (simp add: is_empty_def)

lemma clean_vcf_concat:
  "clean_vcf enum content
     = concat (map (to_vcf_inner enum default_version False)
         (filter (\<lambda>c. \<not> is_empty c) (parse_vcf_file content)))"
  by (simp add: clean_vcf_def write_contacts_to_vcf_file_def write_loop_concat)

lemma enum_fset:
  assumes "set (e S) = fset S" shows "fset_of_list (e S) = S"
proof -
  have "fset (fset_of_list (e S)) = fset S"
    by (simp add: fset_of_list.rep_eq assms)
  then show ?thesis by (simp only: fset_inject)
qed

lemma enum_small:
  assumes "set (e1 S) = fset S" and "distinct (e1 S)"
    and "set (e2 S) = fset S" and "distinct (e2 S)" and "fcard S \<le> 1"
  shows "e1 S = e2 S"
proof -
  have l1: "length (e1 S) \<le> 1"
    using distinct_card [OF assms(2)] assms(1,5) by (simp add: fcard.rep_eq)
  have l2: "length (e2 S) \<le> 1"
    using distinct_card [OF assms(4)] assms(3,5) by (simp add: fcard.rep_eq)
  have s: "set (e1 S) = set (e2 S)" using assms(1,3) by simp
  show ?thesis
  proof (cases "e1 S")
    case Nil
    then show ?thesis using s by simp
  next
    case (Cons a as)
    then have 1: "e1 S = [a]" using l1 by simp
    then obtain b bs where c2: "e2 S = b # bs" using s by (cases "e2 S") auto
    then have 2: "e2 S = [b]" using l2 by simp
    show ?thesis using s unfolding 1 2 by simp
  qed
qed

lemma to_vcf_inner_enum_cong:
  "e1 (categories c) = e2 (categories c) \<Longrightarrow>
     to_vcf_inner e1 version False c = to_vcf_inner e2 version False c"
  by (simp add: to_vcf_inner_def vcf_list_def get_categories_def)

lemma sorted_enum_valid: "set (sorted_enum S) = fset S \<and> distinct (sorted_enum S)"
  by (simp add: sorted_enum_def)

lemma rev_enum_valid: "set (rev_enum S) = fset S \<and> distinct (rev_enum S)"
  by (simp add: rev_enum_def)

lemma clean_vcf_single:
  assumes "parse_vcf_file t = [c]" and "\<not> is_empty c"
  shows "clean_vcf e t = py_join [nl] (vcf_list e default_version False c)"
  unfolding clean_vcf_concat assms(1) using assms(2) by (simp add: to_vcf_inner_def)

lemma vcf_list_example:
  "vcf_list e default_version False
     (VCFContact\<lparr> phones := {|p|}, categories := C, surname := ''Doe'', first_name := ''Jane'' \<rparr>)
   = [''BEGIN:VCARD'', ''VERSION:3.0'', ''FN:Jane Doe'', ''N:Doe;Jane;;;'']
     @ (if C = {||} then [] else [''CATEGORIES:'' @ py_join '','' (e C)])
     @ [phone_str p] @ [''END:VCARD'', [], []]"
proof -
  let ?c = "VCFContact\<lparr> phones := {|p|}, categories := C, surname := ''Doe'',
      first_name := ''Jane'' \<rparr>"
  have fu: "full_name ?c = ''Jane Doe''"
    by (simp add: full_name_def full_name_parts_def VCFContact_def strip_nonempty_def
        is_space_def)
  have ph: "get_sorted_phones ?c = [phone_str p]"
    by (rule get_sorted_phones_single) simp
  show ?thesis
    unfolding vcf_list_def ph
    by (simp add: fu contact_begin_def get_version_def vcf_version_def default_version_def
        get_full_name_line_def full_name_kw_def get_name_line_def name_kw_def name_parts_def
        get_categories_def category_def category_separator_def contact_end_def)
      (simp add: VCFContact_def)
qed




end
